theory Spec2Isabelle
  imports Main
begin

section \<open>Strings as the scrapers use them\<close>

text \<open>
  Python strings are modelled as \<^typ>\<open>string\<close>, one character per code point, for text
  whose code points are below 256. On that range the functions below are Python's:
  \<open>str.isspace\<close>, \<open>str.strip\<close> and the regular expression class \<open>\s\<close> accept 0x09..0x0D,
  0x1C..0x1F, the blank, 0x85 and 0xA0; \<open>str.isdigit\<close> accepts 0..9 and the superscripts
  0xB2, 0xB3 and 0xB9, while the class \<open>\d\<close> and \<open>int\<close> accept 0..9 only; \<open>str.upper\<close> maps
  a..z and 0xE0..0xFE (0xF7 apart) to the character 0x20 below and 0xDF to \<open>SS\<close>.

  The capitals of 0xB5 and 0xFF are U+039C and U+0178, outside the range. In upper-case text
  the characters 0xB5 and 0xFF stand for these two capitals: no upper-case text holds 0xB5 or
  0xFF otherwise, and like their capitals they are not whitespace, not a digit, not \<open>-\<close>
  and none of A..Z, which is all the sources ask of upper-case text.
\<close>

datatype error = IndexError | ValueError

definition whitespace_chars :: "char list" where
  "whitespace_chars =
     [CHR 0x09, CHR 0x0A, CHR 0x0B, CHR 0x0C, CHR 0x0D,
      CHR 0x1C, CHR 0x1D, CHR 0x1E, CHR 0x1F, CHR '' '', CHR 0x85, CHR 0xA0]"

definition isspace :: "char \<Rightarrow> bool" where
  "isspace c = (c \<in> set whitespace_chars)"

definition is_decimal_char :: "char \<Rightarrow> bool" where
  "is_decimal_char c = (c \<in> set ''0123456789'')"

definition is_digit_char :: "char \<Rightarrow> bool" where
  "is_digit_char c = (is_decimal_char c \<or> c \<in> set [CHR 0xB2, CHR 0xB3, CHR 0xB9])"

definition is_upper_char :: "char \<Rightarrow> bool" where
  "is_upper_char c = (c \<in> set ''ABCDEFGHIJKLMNOPQRSTUVWXYZ'')"

definition is_lower_char :: "char \<Rightarrow> bool" where
  "is_lower_char c = (c \<in> set ''abcdefghijklmnopqrstuvwxyz'')"

definition is_alpha_char :: "char \<Rightarrow> bool" where
  "is_alpha_char c = (is_upper_char c \<or> is_lower_char c)"

definition lower_letters :: "char list" where
  "lower_letters =
     ''abcdefghijklmnopqrstuvwxyz''
     @ [CHR 0xE0, CHR 0xE1, CHR 0xE2, CHR 0xE3, CHR 0xE4, CHR 0xE5, CHR 0xE6, CHR 0xE7,
        CHR 0xE8, CHR 0xE9, CHR 0xEA, CHR 0xEB, CHR 0xEC, CHR 0xED, CHR 0xEE, CHR 0xEF,
        CHR 0xF0, CHR 0xF1, CHR 0xF2, CHR 0xF3, CHR 0xF4, CHR 0xF5, CHR 0xF6,
        CHR 0xF8, CHR 0xF9, CHR 0xFA, CHR 0xFB, CHR 0xFC, CHR 0xFD, CHR 0xFE]"

definition upper_letters :: "char list" where
  "upper_letters =
     ''ABCDEFGHIJKLMNOPQRSTUVWXYZ''
     @ [CHR 0xC0, CHR 0xC1, CHR 0xC2, CHR 0xC3, CHR 0xC4, CHR 0xC5, CHR 0xC6, CHR 0xC7,
        CHR 0xC8, CHR 0xC9, CHR 0xCA, CHR 0xCB, CHR 0xCC, CHR 0xCD, CHR 0xCE, CHR 0xCF,
        CHR 0xD0, CHR 0xD1, CHR 0xD2, CHR 0xD3, CHR 0xD4, CHR 0xD5, CHR 0xD6,
        CHR 0xD8, CHR 0xD9, CHR 0xDA, CHR 0xDB, CHR 0xDC, CHR 0xDD, CHR 0xDE]"

definition upper_char :: "char \<Rightarrow> string" where
  "upper_char c =
     (if c = CHR 0xDF then ''SS''
      else (case map_of (zip lower_letters upper_letters) c of
              Some u \<Rightarrow> [u]
            | None \<Rightarrow> [c]))"

text \<open>\<open>s.upper()\<close>, \<open>s.strip()\<close>, \<open>s.isdigit()\<close>, \<open>sub in s\<close> and \<open>' '.join(xs)\<close>.\<close>

definition upper :: "string \<Rightarrow> string" where
  "upper s = concat (map upper_char s)"

definition strip :: "string \<Rightarrow> string" where
  "strip s = rev (dropWhile isspace (rev (dropWhile isspace s)))"

definition isdigit :: "string \<Rightarrow> bool" where
  "isdigit s = (s \<noteq> [] \<and> list_all is_digit_char s)"

fun starts_with :: "string \<Rightarrow> string \<Rightarrow> bool" where
  "starts_with [] s = True"
| "starts_with (p # ps) [] = False"
| "starts_with (p # ps) (c # cs) = (p = c \<and> starts_with ps cs)"

fun contains :: "string \<Rightarrow> string \<Rightarrow> bool" where
  "contains sub [] = (sub = [])"
| "contains sub (c # cs) = (starts_with sub (c # cs) \<or> contains sub cs)"

fun join :: "string \<Rightarrow> string list \<Rightarrow> string" where
  "join sep [] = []"
| "join sep [x] = x"
| "join sep (x # y # ys) = x @ sep @ join sep (y # ys)"

text \<open>
  \<open>int(s)\<close> as the source calls it, on a string for which \<open>s.isdigit()\<close> holds: the decimal
  value when every character is one of 0..9, and \<open>ValueError\<close> when a superscript digit is
  among them.
\<close>

definition digit_value :: "char \<Rightarrow> nat" where
  "digit_value c = (case map_of (zip ''0123456789'' [0, 1, 2, 3, 4, 5, 6, 7, 8, 9]) c of
                      Some d \<Rightarrow> d
                    | None \<Rightarrow> 0)"

definition int_of_digits :: "string \<Rightarrow> error + nat" where
  "int_of_digits s =
     (if s \<noteq> [] \<and> list_all is_decimal_char s
      then Inr (foldl (\<lambda>n c. 10 * n + digit_value c) 0 s)
      else Inl ValueError)"

text \<open>\<open>text.split('\n')\<close>: the pieces between line feeds; never the empty list.\<close>

fun split_on :: "char \<Rightarrow> string \<Rightarrow> string list" where
  "split_on d [] = [[]]"
| "split_on d (c # cs) =
     (if c = d then [] # split_on d cs
      else (case split_on d cs of
              [] \<Rightarrow> [[c]]
            | w # ws \<Rightarrow> (c # w) # ws))"

definition split_lines :: "string \<Rightarrow> string list" where
  "split_lines text = split_on (CHR 0x0A) text"

text \<open>
  \<open>re.split(r'\s+', s)\<close>: the pieces between maximal runs of whitespace. A leading or a
  trailing run leaves an empty piece at that end, and the empty string gives one empty
  piece. \<open>cur\<close> is the piece being read.
\<close>

function split_aux :: "string \<Rightarrow> string \<Rightarrow> string list" where
  "split_aux cur [] = [cur]"
| "split_aux cur (c # cs) =
     (if isspace c then cur # split_aux [] (dropWhile isspace cs)
      else split_aux (cur @ [c]) cs)"
  by pat_completeness auto
termination
  by (relation "measure (\<lambda>(cur, s). length s)")
     (auto simp: le_imp_less_Suc length_dropWhile_le)

definition re_split_ws :: "string \<Rightarrow> string list" where
  "re_split_ws s = split_aux [] s"

text \<open>Python's \<open>xs[1:-1]\<close>.\<close>

definition interior :: "'a list \<Rightarrow> 'a list" where
  "interior xs = butlast (tl xs)"

section \<open>The regular expressions of the scrapers\<close>

text \<open>
  Every pattern in the sources is a sequence of items of four kinds: one of several literal
  strings (\<open>(FR|SO|JR|SR|GR)\<close>, or a single literal), a character class repeated greedily
  between a lower and an optional upper bound (\<open>\d{1,2}\<close>, \<open>\s+\<close>, \<open>-?\<close>), and the end
  anchor \<open>$\<close>, which also matches before a final line feed. \<open>match_items\<close> is Python's
  backtracking matcher on such a sequence: alternatives are tried left to right,
  repetitions longest first, and the result is the length of the first match found.
\<close>

datatype rx_item =
    Alt "string list"
  | Rep "char \<Rightarrow> bool" nat "nat option"
  | Eos

abbreviation Lit :: "string \<Rightarrow> rx_item" where
  "Lit s \<equiv> Alt [s]"

fun first_some :: "'a option list \<Rightarrow> 'a option" where
  "first_some [] = None"
| "first_some (None # xs) = first_some xs"
| "first_some (Some x # xs) = Some x"

definition rep_counts :: "(char \<Rightarrow> bool) \<Rightarrow> nat \<Rightarrow> nat option \<Rightarrow> string \<Rightarrow> nat list" where
  "rep_counts cls lo hi s =
     (let avail = length (takeWhile cls s);
          most = (case hi of None \<Rightarrow> avail | Some h \<Rightarrow> min h avail)
      in rev [lo ..< Suc most])"

fun match_items :: "rx_item list \<Rightarrow> string \<Rightarrow> nat option" where
  "match_items [] s = Some 0"
| "match_items (Alt alts # items) s =
     first_some (map (\<lambda>a. if starts_with a s
                           then map_option (\<lambda>n. length a + n) (match_items items (drop (length a) s))
                           else None) alts)"
| "match_items (Rep cls lo hi # items) s =
     first_some (map (\<lambda>k. map_option (\<lambda>n. k + n) (match_items items (drop k s)))
                     (rep_counts cls lo hi s))"
| "match_items (Eos # items) s =
     (if s = [] \<or> s = [CHR 0x0A] then match_items items s else None)"

text \<open>
  A pattern is its item sequence and whether it starts with \<open>^\<close>. \<open>re.match\<close> tries the
  start of the string only; \<open>re.search\<close> tries every start position from the left (only
  the first one under \<open>^\<close>); \<open>re.findall\<close> collects the matches from left to right, each
  search resuming where the last match ended (one character further after an empty
  match).
\<close>

record pattern =
  anchored :: bool
  items :: "rx_item list"

definition re_match :: "pattern \<Rightarrow> string \<Rightarrow> string option" where
  "re_match p s = map_option (\<lambda>n. take n s) (match_items (items p) s)"

fun search_from :: "rx_item list \<Rightarrow> string \<Rightarrow> string option" where
  "search_from its [] = map_option (\<lambda>n. []) (match_items its [])"
| "search_from its (c # cs) =
     (case match_items its (c # cs) of
        Some n \<Rightarrow> Some (take n (c # cs))
      | None \<Rightarrow> search_from its cs)"

definition re_search :: "pattern \<Rightarrow> string \<Rightarrow> string option" where
  "re_search p s = (if anchored p then re_match p s else search_from (items p) s)"

function findall_from :: "rx_item list \<Rightarrow> string \<Rightarrow> string list" where
  "findall_from its [] = (case match_items its [] of Some n \<Rightarrow> [[]] | None \<Rightarrow> [])"
| "findall_from its (c # cs) =
     (case match_items its (c # cs) of
        Some n \<Rightarrow> take n (c # cs) # findall_from its (drop (max 1 n) (c # cs))
      | None \<Rightarrow> findall_from its cs)"
  by pat_completeness auto
termination
  by (relation "measure (\<lambda>(its, s). length s)") auto

definition re_findall :: "pattern \<Rightarrow> string \<Rightarrow> string list" where
  "re_findall p s =
     (if anchored p then (case re_match p s of Some m \<Rightarrow> [m] | None \<Rightarrow> [])
      else findall_from (items p) s)"

section \<open>The text path: \<open>FinalPDFScraper\<close> (final\_pdf\_scraper.py)\<close>

subsection \<open>Event date\<close>

definition dash :: "char \<Rightarrow> bool" where
  "dash c = (c = CHR ''-'')"

definition comma :: "char \<Rightarrow> bool" where
  "comma c = (c = CHR '','')"

definition colon_or_dot :: "char \<Rightarrow> bool" where
  "colon_or_dot c = (c = CHR '':'' \<or> c = CHR ''.'')"

text \<open>
  The five entries of \<open>date_patterns\<close>, in the order of the source:
  \<open>([A-Za-z]+ \d{1,2}-?\d{0,2},? \d{4})\<close>, \<open>([A-Za-z]{3} \d{1,2}-?\d{0,2},? \d{4})\<close>,
  \<open>(\d{4}-\d{1,2}-\d{1,2})\<close>, and \<open>(\d{1,2}/\d{1,2}/\d{4})\<close> twice. Each pattern is one
  group, so \<open>findall\<close> lists the whole matches.
\<close>

definition month_day_year :: "nat \<Rightarrow> nat option \<Rightarrow> pattern" where
  "month_day_year lo hi =
     \<lparr>anchored = False,
      items = [Rep is_alpha_char lo hi, Lit '' '', Rep is_decimal_char 1 (Some 2),
               Rep dash 0 (Some 1), Rep is_decimal_char 0 (Some 2), Rep comma 0 (Some 1),
               Lit '' '', Rep is_decimal_char 4 (Some 4)]\<rparr>"

definition iso_date :: pattern where
  "iso_date =
     \<lparr>anchored = False,
      items = [Rep is_decimal_char 4 (Some 4), Lit ''-'', Rep is_decimal_char 1 (Some 2),
               Lit ''-'', Rep is_decimal_char 1 (Some 2)]\<rparr>"

definition slash_date :: pattern where
  "slash_date =
     \<lparr>anchored = False,
      items = [Rep is_decimal_char 1 (Some 2), Lit ''/'', Rep is_decimal_char 1 (Some 2),
               Lit ''/'', Rep is_decimal_char 4 (Some 4)]\<rparr>"

definition date_patterns :: "pattern list" where
  "date_patterns =
     [month_day_year 1 None, month_day_year 3 (Some 3), iso_date, slash_date, slash_date]"

text \<open>
  The loop of \<open>extract_event_date\<close> over the patterns: the first pattern with a non-empty
  \<open>findall\<close> result returns that result's first entry, stripped; the empty string is
  returned when the loop runs out.
\<close>

fun first_date :: "pattern list \<Rightarrow> string \<Rightarrow> string" where
  "first_date [] text = []"
| "first_date (p # ps) text =
     (case re_findall p text of
        [] \<Rightarrow> first_date ps text
      | m # ms \<Rightarrow> strip m)"

definition extract_event_date :: "string \<Rightarrow> string" where
  "extract_event_date text = first_date date_patterns text"

subsection \<open>Records, header patterns and year tokens\<close>

record result_record =
  PL :: string
  NAME :: string
  YEAR :: string
  TEAM :: string
  TIME :: string
  SOURCE_FILE :: string
  EVENT_DATE :: string

definition ws_plus :: rx_item where
  "ws_plus = Rep isspace 1 None"

definition header_of :: "string list \<Rightarrow> pattern" where
  "header_of words = \<lparr>anchored = False, items = tl (concat (map (\<lambda>w. [ws_plus, Lit w]) words))\<rparr>"

definition header_start :: "string \<Rightarrow> pattern" where
  "header_start word = \<lparr>anchored = True, items = [Lit word, ws_plus]\<rparr>"

text \<open>
  The sixteen entries of \<open>header_patterns\<close>: \<open>header_of [''PL'', ''NAME'']\<close> stands for
  \<open>PL\s+NAME\<close> and \<open>header_start ''PL''\<close> for \<open>^PL\s+\<close>.
\<close>

definition header_patterns :: "pattern list" where
  "header_patterns =
     [header_of [''PL'', ''NAME'', ''YEAR'', ''TEAM'', ''TIME''],
      header_of [''PLACE'', ''NAME'', ''YEAR'', ''TEAM'', ''TIME''],
      header_of [''POS'', ''NAME'', ''YEAR'', ''TEAM'', ''TIME''],
      header_of [''RANK'', ''NAME'', ''YEAR'', ''TEAM'', ''TIME''],
      header_of [''PL'', ''ATHLETE'', ''YEAR'', ''TEAM'', ''TIME''],
      header_of [''PLACE'', ''ATHLETE'', ''YEAR'', ''TEAM'', ''TIME''],
      header_of [''PL'', ''NAME'', ''TEAM'', ''TIME''],
      header_of [''PLACE'', ''NAME'', ''TEAM'', ''TIME''],
      header_of [''POS'', ''NAME'', ''TEAM'', ''TIME''],
      header_of [''RANK'', ''NAME'', ''TEAM'', ''TIME''],
      header_of [''PL'', ''ATHLETE'', ''TEAM'', ''TIME''],
      header_of [''PLACE'', ''ATHLETE'', ''TEAM'', ''TIME''],
      header_start ''PL'',
      header_start ''PLACE'',
      header_start ''POS'',
      header_start ''RANK'']"

text \<open>\<open>^[A-Z\s]+$\<close>, \<open>^(FR|SO|JR|SR|GR)[-]?\d*$\<close> and \<open>\d+[:.]?\d*\<close>.\<close>

definition upper_or_space :: "char \<Rightarrow> bool" where
  "upper_or_space c = (is_upper_char c \<or> isspace c)"

definition section_pattern :: pattern where
  "section_pattern = \<lparr>anchored = True, items = [Rep upper_or_space 1 None, Eos]\<rparr>"

definition year_code_pattern :: pattern where
  "year_code_pattern =
     \<lparr>anchored = True,
      items = [Alt [''FR'', ''SO'', ''JR'', ''SR'', ''GR''], Rep dash 0 (Some 1),
               Rep is_decimal_char 0 None, Eos]\<rparr>"

definition time_pattern :: pattern where
  "time_pattern =
     \<lparr>anchored = False,
      items = [Rep is_decimal_char 1 None, Rep colon_or_dot 0 (Some 1), Rep is_decimal_char 0 None]\<rparr>"

text \<open>
  The two tests applied to a token in both year loops of the source, an \<open>if\<close> and its
  \<open>elif\<close>: \<open>part.isdigit() and len(part) == 4 and 2020 <= int(part) <= 2030\<close>, and
  \<open>re.match(year_code, part.upper())\<close>. The first raises \<open>ValueError\<close> when \<open>int\<close> does; the
  second is reached only when the first is false. \<open>year_token\<close> is the outcome of the pair:
  whether the token is taken as a year, or the error.
\<close>

definition plausible_year :: "string \<Rightarrow> error + bool" where
  "plausible_year part =
     (if isdigit part \<and> length part = 4
      then (case int_of_digits part of
              Inl e \<Rightarrow> Inl e
            | Inr v \<Rightarrow> Inr (2020 \<le> v \<and> v \<le> 2030))
      else Inr False)"

definition is_year_code :: "string \<Rightarrow> bool" where
  "is_year_code part = (re_match year_code_pattern (upper part) \<noteq> None)"

definition year_token :: "string \<Rightarrow> error + bool" where
  "year_token part =
     (case plausible_year part of
        Inl e \<Rightarrow> Inl e
      | Inr in_range \<Rightarrow> Inr (in_range \<or> is_year_code part))"

subsection \<open>The year flag of a header\<close>

text \<open>
  When the header line does not contain \<open>YEAR\<close>, the source looks at
  \<open>lines[i+1:i+6]\<close>: each of these lines is stripped and split, and a line of at least
  four pieces has its interior pieces tested in turn. \<open>peek_parts\<close> is the inner loop,
  \<open>peek_lines\<close> the outer one; both leave at the first hit. There is no \<open>try\<close> around
  these loops: an error of \<open>int\<close> leaves them, and \<open>extract_all_table_data\<close> with them.
\<close>

fun peek_parts :: "string list \<Rightarrow> error + bool" where
  "peek_parts [] = Inr False"
| "peek_parts (part # rest) =
     (case year_token part of
        Inl e \<Rightarrow> Inl e
      | Inr hit \<Rightarrow> if hit then Inr True else peek_parts rest)"

fun peek_lines :: "string list \<Rightarrow> error + bool" where
  "peek_lines [] = Inr False"
| "peek_lines (check_line # rest) =
     (let check_parts = re_split_ws (strip check_line)
      in case (if length check_parts \<ge> 4 then peek_parts (interior check_parts) else Inr False) of
           Inl e \<Rightarrow> Inl e
         | Inr has_year \<Rightarrow> if has_year then Inr True else peek_lines rest)"

definition header_has_year :: "string list \<Rightarrow> nat \<Rightarrow> string \<Rightarrow> error + bool" where
  "header_has_year lines i line_upper =
     (let has_year = contains ''YEAR'' line_upper
      in if \<not> has_year then peek_lines (take 5 (drop (i + 1) lines)) else Inr has_year)"

subsection \<open>One data row\<close>

definition team_keywords_year :: "string list" where
  "team_keywords_year =
     [''University'', ''Universidad'', ''College'', ''UPR'', ''P.R.'', ''Caribbean'',
      ''Interamerican'', ''Politecnica'', ''State'', ''Tech'', ''Institute'', ''Jr.'', ''Sr.'',
      ''III'', ''II'']"

definition team_keywords :: "string list" where
  "team_keywords =
     [''University'', ''Universidad'', ''College'', ''UPR'', ''P.R.'', ''Caribbean'',
      ''Interamerican'', ''Politecnica'']"

text \<open>
  The search for the year among \<open>enumerate(parts[1:-1])\<close>: the result is the token and
  its index in \<open>parts\<close>, or the empty string and \<open>-1\<close>; or the error of \<open>int\<close> on a token
  met before any year.
\<close>

fun find_year :: "string list \<Rightarrow> nat \<Rightarrow> error + string \<times> int" where
  "find_year [] i = Inr ([], - 1)"
| "find_year (part # rest) i =
     (case year_token part of
        Inl e \<Rightarrow> Inl e
      | Inr hit \<Rightarrow> if hit then Inr (part, int i + 1) else find_year rest (Suc i))"

text \<open>
  The loop that sorts the middle tokens into name and team; the state is
  \<open>(name_parts, team_parts, found_team_start)\<close>. After it, the source falls back to the
  first two tokens as the name when no keyword was seen.
\<close>

fun split_loop ::
  "string list \<Rightarrow> string list \<Rightarrow> string list \<times> string list \<times> bool \<Rightarrow> string list \<times> string list \<times> bool"
where
  "split_loop keywords [] st = st"
| "split_loop keywords (part # rest) (name_parts, team_parts, found_team_start) =
     (if \<not> found_team_start \<and> list_ex (\<lambda>keyword. contains keyword part) keywords
      then split_loop keywords rest (name_parts, team_parts @ [part], True)
      else if found_team_start
      then split_loop keywords rest (name_parts, team_parts @ [part], found_team_start)
      else split_loop keywords rest (name_parts @ [part], team_parts, found_team_start))"

definition split_name_team :: "string list \<Rightarrow> string list \<Rightarrow> string list \<times> string list" where
  "split_name_team keywords middle_parts =
     (case split_loop keywords middle_parts ([], [], False) of
        (name_parts, team_parts, found_team_start) \<Rightarrow>
          if \<not> found_team_start \<and> length middle_parts \<ge> 2
          then (take 2 middle_parts, drop 2 middle_parts)
          else (name_parts, team_parts))"

text \<open>The test in front of \<open>records.append(record)\<close>, the same in both branches.\<close>

definition emit_ok :: "string \<Rightarrow> string \<Rightarrow> string \<Rightarrow> string \<Rightarrow> bool" where
  "emit_ok place name team time_part =
     (isdigit place \<and> length name > 1 \<and> length team > 1 \<and> re_match time_pattern time_part \<noteq> None)"

text \<open>
  The branch \<open>has_year and len(parts) >= 5\<close>. The result is the list of records appended
  for the row: one or none. The branch is a \<open>try\<close> block with
  \<open>except (IndexError, ValueError): continue\<close>: when the search for the year raises, the row
  gives no record and the loop goes on. With five pieces or more, \<open>parts[0]\<close> and
  \<open>parts[-1]\<close> exist, so nothing else in the block raises.
\<close>

definition row_with_year :: "string \<Rightarrow> string \<Rightarrow> string list \<Rightarrow> result_record list" where
  "row_with_year source_file event_date parts =
     (let place = hd parts in
      if isdigit place then
        (case find_year (interior parts) 0 of
           Inl e \<Rightarrow> []
         | Inr (year, year_index) \<Rightarrow>
             let time_part = last parts;
                 middle_parts = interior parts
             in if length middle_parts \<ge> 2 then
                  (let middle_parts =
                         (if year_index > 0
                          then map snd (filter (\<lambda>(i, part). int i \<noteq> year_index - 1)
                                               (enumerate 0 middle_parts))
                          else middle_parts)
                   in case split_name_team team_keywords_year middle_parts of
                        (name_parts, team_parts) \<Rightarrow>
                          let name = join '' '' name_parts;
                              team = join '' '' team_parts
                          in if emit_ok place name team time_part
                             then [\<lparr>PL = place, NAME = name, YEAR = year, TEAM = team,
                                    TIME = time_part, SOURCE_FILE = source_file,
                                    EVENT_DATE = event_date\<rparr>]
                             else [])
                else [])
      else [])"

text \<open>The branch \<open>elif len(parts) >= 4\<close>.\<close>

definition row_without_year :: "string \<Rightarrow> string \<Rightarrow> string list \<Rightarrow> result_record list" where
  "row_without_year source_file event_date parts =
     (let place = hd parts in
      if isdigit place then
        (let time_part = last parts;
             middle_parts = interior parts
         in if length middle_parts \<ge> 2 then
              (case split_name_team team_keywords middle_parts of
                 (name_parts, team_parts) \<Rightarrow>
                   let name = join '' '' name_parts;
                       team = join '' '' team_parts
                   in if emit_ok place name team time_part
                      then [\<lparr>PL = place, NAME = name, YEAR = [], TEAM = team,
                             TIME = time_part, SOURCE_FILE = source_file,
                             EVENT_DATE = event_date\<rparr>]
                      else [])
            else [])
      else [])"

definition row_records :: "bool \<Rightarrow> string \<Rightarrow> string \<Rightarrow> string list \<Rightarrow> result_record list" where
  "row_records has_year source_file event_date parts =
     (if has_year \<and> length parts \<ge> 5 then row_with_year source_file event_date parts
      else if length parts \<ge> 4 then row_without_year source_file event_date parts
      else [])"

subsection \<open>The rows under a header and the scan for headers\<close>

definition is_section_break :: "string \<Rightarrow> bool" where
  "is_section_break data_line = (re_search section_pattern data_line \<noteq> None \<and> length data_line > 10)"

text \<open>
  The loop \<open>for j in range(i + 1, min(i + 200, len(lines)))\<close>, run over the lines of that
  range: blank lines are passed over, a section break ends the loop, any other line is
  split and handed to the row branches. The result is the list of records appended.
\<close>

fun scan_rows :: "bool \<Rightarrow> string \<Rightarrow> string \<Rightarrow> string list \<Rightarrow> result_record list" where
  "scan_rows has_year source_file event_date [] = []"
| "scan_rows has_year source_file event_date (l # ls) =
     (let data_line = strip l in
      if data_line = [] then scan_rows has_year source_file event_date ls
      else if is_section_break data_line then []
      else row_records has_year source_file event_date (re_split_ws data_line)
           @ scan_rows has_year source_file event_date ls)"

definition row_window :: "string list \<Rightarrow> nat \<Rightarrow> string list" where
  "row_window lines i = take (min (i + 200) (length lines) - (i + 1)) (drop (i + 1) lines)"

definition is_header :: "string \<Rightarrow> bool" where
  "is_header line_upper = list_ex (\<lambda>pattern. re_search pattern line_upper \<noteq> None) header_patterns"

text \<open>
  What the source does at a line that matches a header pattern: the year flag is settled
  and the rows of the window are scanned. The inner \<open>for pattern in header_patterns\<close> ends
  with \<open>break\<close> at the first pattern that matches, so this happens once per line.
\<close>

definition table_records ::
  "string list \<Rightarrow> string \<Rightarrow> string \<Rightarrow> nat \<Rightarrow> error + result_record list"
where
  "table_records lines source_file event_date i =
     (case header_has_year lines i (strip (upper (lines ! i))) of
        Inl e \<Rightarrow> Inl e
      | Inr has_year \<Rightarrow> Inr (scan_rows has_year source_file event_date (row_window lines i)))"

text \<open>
  One round of \<open>for i, line in enumerate(lines)\<close> on the state \<open>(table_found, records)\<close>.
  The \<open>break\<close> after the row loop leaves the loop over the patterns, not this one: the
  next round takes the next line. (The source reuses the name \<open>i\<close> inside the row loop;
  the range of \<open>j\<close> is fixed by then and \<open>enumerate\<close> sets \<open>i\<close> anew each round.)
\<close>

definition header_step ::
  "string list \<Rightarrow> string \<Rightarrow> string \<Rightarrow> bool \<times> result_record list \<Rightarrow> nat \<times> string
     \<Rightarrow> error + bool \<times> result_record list"
where
  "header_step lines source_file event_date st il =
     (case (st, il) of
        ((table_found, records), (i, line)) \<Rightarrow>
          let line_upper = strip (upper line) in
          if is_header line_upper
          then (case table_records lines source_file event_date i of
                  Inl e \<Rightarrow> Inl e
                | Inr table \<Rightarrow> Inr (True, records @ table))
          else Inr (table_found, records))"

text \<open>The loop over the lines: it goes on from round to round until a round raises.\<close>

fun scan_lines ::
  "string list \<Rightarrow> string \<Rightarrow> string \<Rightarrow> (nat \<times> string) list \<Rightarrow> bool \<times> result_record list
     \<Rightarrow> error + bool \<times> result_record list"
where
  "scan_lines lines source_file event_date [] st = Inr st"
| "scan_lines lines source_file event_date (il # rest) st =
     (case header_step lines source_file event_date st il of
        Inl e \<Rightarrow> Inl e
      | Inr st' \<Rightarrow> scan_lines lines source_file event_date rest st')"

definition scan_headers ::
  "string list \<Rightarrow> string \<Rightarrow> string \<Rightarrow> error + bool \<times> result_record list"
where
  "scan_headers lines source_file event_date =
     scan_lines lines source_file event_date (enumerate 0 lines) (False, [])"

text \<open>
  \<open>extract_all_table_data\<close> returns the records, or raises the error that left the loop;
  the records gathered until then are lost with it.
\<close>

definition extract_all_table_data ::
  "string \<Rightarrow> string \<Rightarrow> string \<Rightarrow> error + result_record list"
where
  "extract_all_table_data text source_file event_date =
     (case scan_headers (split_lines text) source_file event_date of
        Inl e \<Rightarrow> Inl e
      | Inr st \<Rightarrow> Inr (snd st))"

text \<open>
  \<open>extract_from_text\<close> is a method: \<open>self\<close> is the scraper object, which the method does
  not consult.
\<close>

record scraper =
  folder_path :: string
  extracted_data :: "result_record list"
  total_records :: nat

definition extract_from_text ::
  "scraper \<Rightarrow> string \<Rightarrow> string \<Rightarrow> error + result_record list"
where
  "extract_from_text self text source_file =
     (let event_date = extract_event_date text
      in extract_all_table_data text source_file event_date)"

subsection \<open>Folder run, CSV sink and \<open>main\<close>\<close>


text \<open>
  \<open>extract_text_from_pdf\<close> catches every exception of the library and returns the empty
  string; \<open>extract_data_from_pdf\<close> returns no records for an empty text, and none when
  \<open>extract_from_text\<close> raises (\<open>except Exception\<close>).
\<close>

definition extract_text_from_pdf :: "string option \<Rightarrow> string" where
  "extract_text_from_pdf library_result = (case library_result of None \<Rightarrow> [] | Some text \<Rightarrow> text)"

definition extract_data_from_pdf :: "scraper \<Rightarrow> string \<times> string option \<Rightarrow> result_record list" where
  "extract_data_from_pdf self pdf =
     (let text = extract_text_from_pdf (snd pdf)
      in if text = [] then []
         else (case extract_from_text self text (fst pdf) of
                 Inl e \<Rightarrow> []
               | Inr pdf_data \<Rightarrow> pdf_data))"






section \<open>The table path: \<open>PDFScraper.extract_record_from_row\<close> (pdf\_scraper.py)\<close>

text \<open>
  A table row is a list of cells, each a string or \<open>None\<close>. \<open>field_indices\<close> gives for
  each of the five fields the column found for it, or \<open>None\<close>. The record of this path has
  no \<open>YEAR\<close> key.
\<close>

record field_indices =
  PL_index :: "nat option"
  NAME_index :: "nat option"
  TEAM_index :: "nat option"
  TIME_index :: "nat option"
  EVENT_DATE_index :: "nat option"

record row_record =
  row_PL :: string
  row_NAME :: string
  row_TEAM :: string
  row_TIME :: string
  row_SOURCE_FILE :: string
  row_EVENT_DATE :: string

text \<open>
  One round of the loop over \<open>field_indices.items()\<close>: the field keeps its initial empty
  string unless the column is known and inside the row; then it becomes
  \<open>str(row[col_index]).strip() if row[col_index] else ''\<close>.
\<close>

definition field_value :: "string option list \<Rightarrow> nat option \<Rightarrow> string" where
  "field_value row col_index =
     (case col_index of
        None \<Rightarrow> []
      | Some c \<Rightarrow>
          if c < length row
          then (case row ! c of
                  None \<Rightarrow> []
                | Some cell \<Rightarrow> if cell \<noteq> [] then strip cell else [])
          else [])"

definition extract_record_from_row ::
  "string option list \<Rightarrow> field_indices \<Rightarrow> string \<Rightarrow> nat \<Rightarrow> nat \<Rightarrow> nat \<Rightarrow> row_record option"
where
  "extract_record_from_row row indices source_file page_num table_num row_num =
     (let record = \<lparr>row_PL = field_value row (PL_index indices),
                     row_NAME = field_value row (NAME_index indices),
                     row_TEAM = field_value row (TEAM_index indices),
                     row_TIME = field_value row (TIME_index indices),
                     row_SOURCE_FILE = source_file,
                     row_EVENT_DATE = field_value row (EVENT_DATE_index indices)\<rparr>
      in if list_ex (\<lambda>field. field \<noteq> [])
                    [row_PL record, row_NAME record, row_TEAM record, row_TIME record]
         then Some record
         else None)"

section \<open>The HTML path: \<open>TFRRSScraper.save_combined_csv\<close> (tfrrs\_scraper.py)\<close>

text \<open>
  \<open>table_data\<close> maps table names to a dictionary of headers and rows, in insertion
  order. A CSV row is the list handed to \<open>writerow\<close>; its fields are strings, and the row
  number is an integer. \<open>save_combined_csv\<close> is the sequence of rows written when the file
  can be written (otherwise the source logs the error and returns \<open>None\<close>).
\<close>

record table =
  headers :: "string list"
  rows :: "string list list"

datatype csv_field = Str string | Num nat

fun str_nat :: "nat \<Rightarrow> string" where
  "str_nat n =
     (if n < 10 then [''0123456789'' ! n]
      else str_nat (n div 10) @ [''0123456789'' ! (n mod 10)])"

declare str_nat.simps [simp del]

definition combined_header :: "csv_field list" where
  "combined_header =
     [Str ''Table_Name'', Str ''Row_Number''] @ map (\<lambda>i. Str (''Column_'' @ str_nat i)) [0 ..< 20]"

text \<open>\<open>row + [''] * (20 - len(row))\<close>: a negative factor gives the empty list.\<close>

definition padded_row :: "string list \<Rightarrow> string list" where
  "padded_row row = row @ replicate (20 - length row) []"

definition table_rows :: "string \<times> table \<Rightarrow> csv_field list list" where
  "table_rows entry =
     (case entry of
        (table_name, data) \<Rightarrow>
          if rows data = [] then []
          else map (\<lambda>(row_num, row). [Str table_name, Num row_num] @ map Str (padded_row row))
                   (enumerate 1 (rows data)))"

definition save_combined_csv :: "(string \<times> table) list \<Rightarrow> csv_field list list" where
  "save_combined_csv table_data = combined_header # concat (map table_rows table_data)"

section \<open>Notions used in the statements\<close>

text \<open>
  The interior tokens that the year peek reads, in the order it reads them: those of the
  lines that have at least four tokens.
\<close>

definition peek_tokens :: "string list \<Rightarrow> string list" where
  "peek_tokens ls =
     concat (map (\<lambda>check_line.
                    let check_parts = re_split_ws (strip check_line)
                    in if length check_parts \<ge> 4 then interior check_parts else []) ls)"

text \<open>
  The year flag as the specification words it, not as the source computes it: the flag
  holds when one of the first five non-blank lines after the header has an interior token that
  is taken as a year. It is compared with \<open>header_has_year\<close> below.
\<close>

definition claimed_year_flag :: "string list \<Rightarrow> nat \<Rightarrow> bool" where
  "claimed_year_flag lines i =
     (\<exists>check_line \<in> set (take 5 (filter (\<lambda>l. strip l \<noteq> []) (drop (i + 1) lines))).
        \<exists>part \<in> set (interior (re_split_ws (strip check_line))).
           year_token part = Inr True)"

text \<open>
  A section break as the specification words it, not as the source tests it: a stripped line
  of more than ten characters, each an upper-case letter or whitespace, where the upper-case
  letters are those of \<open>str.isupper\<close> (A..Z and the accented capitals 0xC0..0xDE, 0xD7
  apart). It is compared with \<open>is_section_break\<close> below.
\<close>

definition claimed_section_break :: "string \<Rightarrow> bool" where
  "claimed_section_break data_line =
     (list_all (\<lambda>c. c \<in> set upper_letters \<or> isspace c) data_line \<and> length data_line > 10)"

section \<open>Auxiliary facts\<close>

subsection \<open>Matching\<close>

lemma first_some_map:
  "first_some (map f xs) = Some y \<Longrightarrow> \<exists>x\<in>set xs. f x = Some y"
proof (induction xs)
  case Nil then show ?case by simp
next
  case (Cons a xs) then show ?case by (cases "f a") auto
qed

lemma upper_char_digit:
  assumes "is_digit_char c"
  shows "upper_char c = [c]"
proof -
  have "\<forall>d \<in> set ''0123456789''. upper_char d = [d]" by code_simp
  moreover have "\<forall>d \<in> set [CHR 0xB2, CHR 0xB3, CHR 0xB9]. upper_char d = [d]" by code_simp
  ultimately show ?thesis
    using assms unfolding is_digit_char_def is_decimal_char_def by blast
qed

lemma digit_not_code_letter:
  assumes "is_digit_char c"
  shows "c \<notin> set ''FSJG''"
proof -
  have "\<forall>d \<in> set ''0123456789''. d \<notin> set ''FSJG''" by code_simp
  moreover have "\<forall>d \<in> set [CHR 0xB2, CHR 0xB3, CHR 0xB9]. d \<notin> set ''FSJG''" by code_simp
  ultimately show ?thesis
    using assms unfolding is_digit_char_def is_decimal_char_def by blast
qed

lemma starts_with_Cons:
  "starts_with (a # as) s = (\<exists>cs. s = a # cs \<and> starts_with as cs)"
  by (cases s) auto

lemma year_code_first_letter:
  assumes "is_year_code y"
  shows "y \<noteq> [] \<and> \<not> is_digit_char (hd y)"
proof -
  from assms obtain n where
    "match_items (items year_code_pattern) (upper y) = Some n"
    by (auto simp: is_year_code_def re_match_def)
  then have "\<exists>a \<in> set [''FR'', ''SO'', ''JR'', ''SR'', ''GR'']. starts_with a (upper y)"
    unfolding year_code_pattern_def
    by (auto dest!: first_some_map split: if_splits)
  then obtain c cs where u: "upper y = c # cs" and c: "c \<in> set ''FSJG''"
    by (auto simp: starts_with_Cons)
  then obtain d ds where d: "y = d # ds"
    by (cases y) (auto simp: upper_def)
  have "\<not> is_digit_char d"
  proof
    assume dig: "is_digit_char d"
    then have "upper_char d = [d]" by (rule upper_char_digit)
    with u d have "c = d" by (simp add: upper_def)
    with c dig digit_not_code_letter show False by blast
  qed
  with d show ?thesis by simp
qed

lemma section_pattern_all:
  assumes "d \<noteq> []" "list_all upper_or_space d"
  shows "re_search section_pattern d \<noteq> None"
proof -
  from assms(2) have tw: "takeWhile upper_or_space d = d"
    by (simp add: list_all_iff)
  from assms(1) have "[1 ..< Suc (length d)] = [1 ..< length d] @ [length d]"
    by (cases d) simp_all
  then have rc: "rep_counts upper_or_space (Suc 0) None d = length d # rev [Suc 0 ..< length d]"
    by (simp add: rep_counts_def tw Let_def)
  show ?thesis
    by (simp add: re_search_def re_match_def section_pattern_def rc)
qed

lemma starts_with_length: "starts_with a s \<Longrightarrow> length a \<le> length s"
  by (induction a s rule: starts_with.induct) auto

lemma rep_counts_bounds:
  "k \<in> set (rep_counts cls lo hi s) \<Longrightarrow> lo \<le> k \<and> k \<le> length (takeWhile cls s)"
  by (auto simp: rep_counts_def Let_def split: option.splits)

lemma takeWhile_prefix_class:
  assumes "k \<le> length (takeWhile cls s)" "i < k"
  shows "cls (s ! i)"
proof -
  from assms have i: "i < length (takeWhile cls s)" by simp
  then have "takeWhile cls s ! i \<in> set (takeWhile cls s)" by (rule nth_mem)
  then have "cls (takeWhile cls s ! i)" by (rule set_takeWhileD [THEN conjunct2])
  with i show ?thesis by (simp add: takeWhile_nth)
qed

lemma match_items_length:
  "match_items its s = Some n \<Longrightarrow> n \<le> length s"
proof (induction its arbitrary: s n)
  case Nil then show ?case by simp
next
  case (Cons x its)
  show ?case
  proof (cases x)
    case (Alt alts)
    with Cons.prems obtain a n' where
      a: "starts_with a s" "match_items its (drop (length a) s) = Some n'" "n = length a + n'"
      by (auto dest!: first_some_map split: if_splits)
    from Cons.IH [OF a(2)] starts_with_length [OF a(1)] a(3) show ?thesis by simp
  next
    case (Rep cls lo hi)
    with Cons.prems obtain k n' where
      k: "k \<in> set (rep_counts cls lo hi s)" "match_items its (drop k s) = Some n'" "n = k + n'"
      by (auto dest!: first_some_map)
    from rep_counts_bounds [OF k(1)] have "k \<le> length s"
      using length_takeWhile_le [of cls s] by simp
    with Cons.IH [OF k(2)] k(3) show ?thesis by simp
  next
    case Eos
    with Cons.prems Cons.IH show ?thesis by (auto split: if_splits)
  qed
qed

lemma match_items_first:
  assumes "match_items (Rep cls lo hi # its) s = Some n" "1 \<le> lo"
  shows "1 \<le> n \<and> s \<noteq> [] \<and> cls (hd s)"
proof -
  from assms(1) obtain k n' where
    k: "k \<in> set (rep_counts cls lo hi s)" "n = k + n'"
    by (auto dest!: first_some_map)
  from rep_counts_bounds [OF k(1)] assms(2) have b: "1 \<le> k" "k \<le> length (takeWhile cls s)"
    by auto
  then have "s \<noteq> []" by auto
  moreover from takeWhile_prefix_class [OF b(2), of 0] b(1) have "cls (s ! 0)" by simp
  ultimately show ?thesis using k(2) b(1) by (simp add: hd_conv_nth)
qed

lemma match_items_last:
  "match_items its s = Some n \<Longrightarrow> its \<noteq> [] \<Longrightarrow> last its = Rep cls lo hi \<Longrightarrow> 1 \<le> lo
   \<Longrightarrow> 1 \<le> n \<and> cls (s ! (n - 1))"
proof (induction its arbitrary: s n)
  case Nil then show ?case by simp
next
  case (Cons x its)
  show ?case
  proof (cases "its = []")
    case True
    with Cons.prems have x: "x = Rep cls lo hi" by simp
    with True Cons.prems(1) obtain k where
      k: "k \<in> set (rep_counts cls lo hi s)" "n = k"
      by (auto dest!: first_some_map)
    from rep_counts_bounds [OF k(1)] Cons.prems(4)
    have b: "1 \<le> k" "k \<le> length (takeWhile cls s)" by auto
    from takeWhile_prefix_class [OF b(2), of "k - 1"] b(1) have "cls (s ! (k - 1))" by simp
    with k(2) b(1) show ?thesis by simp
  next
    case False
    with Cons.prems have l: "last its = Rep cls lo hi" by simp
    show ?thesis
    proof (cases x)
      case (Alt alts)
      with Cons.prems(1) obtain a n' where
        a: "starts_with a s" "match_items its (drop (length a) s) = Some n'" "n = length a + n'"
        by (auto dest!: first_some_map split: if_splits)
      from Cons.IH [OF a(2) False l Cons.prems(4)]
      have ih: "1 \<le> n'" "cls (drop (length a) s ! (n' - 1))" by auto
      from starts_with_length [OF a(1)] ih(2) have "cls (s ! (length a + (n' - 1)))" by simp
      with ih(1) a(3) show ?thesis by (simp add: Nat.add_diff_assoc)
    next
      case (Rep cls' lo' hi')
      with Cons.prems(1) obtain k n' where
        k: "k \<in> set (rep_counts cls' lo' hi' s)" "match_items its (drop k s) = Some n'" "n = k + n'"
        by (auto dest!: first_some_map)
      from rep_counts_bounds [OF k(1)] have kl: "k \<le> length s"
        using length_takeWhile_le [of cls' s] by simp
      from Cons.IH [OF k(2) False l Cons.prems(4)]
      have ih: "1 \<le> n'" "cls (drop k s ! (n' - 1))" by auto
      from kl ih(2) have "cls (s ! (k + (n' - 1)))" by simp
      with ih(1) k(3) show ?thesis by (simp add: Nat.add_diff_assoc)
    next
      case Eos
      with Cons.prems(1) have "match_items its s = Some n" by (auto split: if_splits)
      from Cons.IH [OF this False l Cons.prems(4)] show ?thesis .
    qed
  qed
qed

lemma strip_clean:
  assumes "m \<noteq> []" "\<not> isspace (hd m)" "\<not> isspace (last m)"
  shows "strip m = m"
proof -
  from assms(1,2) have a: "dropWhile isspace m = m" by (cases m) auto
  from assms(1,3) have "dropWhile isspace (rev m) = rev m"
    by (cases "rev m") (auto simp: hd_rev [symmetric])
  with a show ?thesis by (simp add: strip_def)
qed

subsection \<open>The event date\<close>

lemma search_findall_none:
  "(search_from its s = None) = (findall_from its s = [])"
  by (induction its s rule: findall_from.induct) (auto split: option.splits)

lemma search_findall_head:
  "search_from its s = Some m \<Longrightarrow> \<exists>ms. findall_from its s = m # ms"
  by (induction its s rule: findall_from.induct) (auto split: option.splits)

lemma search_from_match:
  "search_from its s = Some m \<Longrightarrow> \<exists>suffix n. match_items its suffix = Some n \<and> m = take n suffix"
proof (induction s)
  case Nil
  then obtain n where "match_items its [] = Some n" "m = []" by auto
  then have "match_items its [] = Some n \<and> m = take n []" by simp
  then show ?case by blast
next
  case (Cons c cs)
  show ?case
  proof (cases "match_items its (c # cs)")
    case None
    with Cons show ?thesis by simp
  next
    case (Some n)
    with Cons.prems have "match_items its (c # cs) = Some n \<and> m = take n (c # cs)" by simp
    then show ?thesis by blast
  qed
qed

lemma alpha_not_space:
  assumes "is_alpha_char c"
  shows "\<not> isspace c"
proof -
  have "\<forall>d \<in> set ''ABCDEFGHIJKLMNOPQRSTUVWXYZ''. \<not> isspace d" by code_simp
  moreover have "\<forall>d \<in> set ''abcdefghijklmnopqrstuvwxyz''. \<not> isspace d" by code_simp
  ultimately show ?thesis
    using assms unfolding is_alpha_char_def is_upper_char_def is_lower_char_def by blast
qed

lemma digit_not_space:
  assumes "is_decimal_char c"
  shows "\<not> isspace c"
proof -
  have "\<forall>d \<in> set ''0123456789''. \<not> isspace d" by code_simp
  with assms show ?thesis unfolding is_decimal_char_def by blast
qed

lemma date_pattern_shape:
  assumes "p \<in> set date_patterns"
  shows "\<not> anchored p \<and> items p \<noteq> []
         \<and> (\<exists>cls lo hi rest. items p = Rep cls lo hi # rest \<and> 1 \<le> lo
                \<and> (cls = is_alpha_char \<or> cls = is_decimal_char))
         \<and> (\<exists>lo hi. last (items p) = Rep is_decimal_char lo hi \<and> 1 \<le> lo)"
  using assms
  by (auto simp: date_patterns_def month_day_year_def iso_date_def slash_date_def)

lemma date_match_clean:
  assumes p: "p \<in> set date_patterns" and m: "re_search p s = Some m"
  shows "strip m = m"
proof -
  from date_pattern_shape [OF p] obtain cls lo hi rest lo' hi' where
    sh: "\<not> anchored p" "items p \<noteq> []" "items p = Rep cls lo hi # rest" "1 \<le> lo"
        "cls = is_alpha_char \<or> cls = is_decimal_char"
        "last (items p) = Rep is_decimal_char lo' hi'" "1 \<le> lo'"
    by blast
  from m sh(1) have "search_from (items p) s = Some m" by (simp add: re_search_def)
  then obtain suffix n where
    mt: "match_items (items p) suffix = Some n" "m = take n suffix"
    using search_from_match by blast
  from match_items_first [of cls lo hi rest suffix n] mt(1) sh(3,4)
  have f: "1 \<le> n" "suffix \<noteq> []" "cls (hd suffix)" by auto
  from match_items_last [OF mt(1) sh(2) sh(6) sh(7)]
  have l: "is_decimal_char (suffix ! (n - 1))" by simp
  from match_items_length [OF mt(1)] have len: "n \<le> length suffix" .
  from f(1,2) mt(2) have ne: "m \<noteq> []" by auto
  from f(1,2) mt(2) have hd: "hd m = hd suffix" by (cases suffix; cases n) auto
  from f(1) len mt(2) have "length m = n" by simp
  with ne mt(2) f(1) have last: "last m = suffix ! (n - 1)"
    by (simp add: last_conv_nth)
  from f(3) sh(5) have "\<not> isspace (hd suffix)"
    using alpha_not_space digit_not_space by blast
  moreover from l have "\<not> isspace (suffix ! (n - 1))" by (rule digit_not_space)
  ultimately show ?thesis using ne hd last by (simp add: strip_clean)
qed

lemma first_date_none:
  "\<forall>p \<in> set ps. re_findall p text = [] \<Longrightarrow> first_date ps text = []"
  by (induction ps) auto

lemma first_date_at:
  "k < length ps \<Longrightarrow> \<forall>j<k. re_findall (ps ! j) text = [] \<Longrightarrow> re_findall (ps ! k) text = m # ms
   \<Longrightarrow> first_date ps text = strip m"
proof (induction ps arbitrary: k)
  case Nil then show ?case by simp
next
  case (Cons p ps)
  show ?case
  proof (cases k)
    case 0
    with Cons.prems show ?thesis by simp
  next
    case (Suc k')
    with Cons.prems have "re_findall p text = []" by auto
    moreover from Suc Cons.prems have "first_date ps text = strip m"
      by (intro Cons.IH [of k']) auto
    ultimately show ?thesis by simp
  qed
qed

lemma date_findall_none:
  assumes "p \<in> set date_patterns" "re_search p text = None"
  shows "re_findall p text = []"
  using assms date_pattern_shape [OF assms(1)]
  by (simp add: re_search_def re_findall_def search_findall_none)

lemma date_findall_head:
  assumes "p \<in> set date_patterns" "re_search p text = Some m"
  shows "\<exists>ms. re_findall p text = m # ms"
  using assms date_pattern_shape [OF assms(1)] search_findall_head [of "items p" "text" m]
  by (simp add: re_search_def re_findall_def)

subsection \<open>Rows, tables and the scan for headers\<close>

lemma plausible_year_true:
  "plausible_year y = Inr True \<Longrightarrow>
   isdigit y \<and> length y = 4 \<and> list_all is_decimal_char y
   \<and> (\<exists>v. int_of_digits y = Inr v \<and> 2020 \<le> v \<and> v \<le> 2030)"
  by (auto simp: plausible_year_def int_of_digits_def split: if_splits)

lemma plausible_year_digits:
  assumes "isdigit y" "length y = 4" "plausible_year y \<noteq> Inr True"
  shows "year_token y \<noteq> Inr True"
proof -
  from assms(1) have "y \<noteq> []" "is_digit_char (hd y)"
    by (cases y; simp add: isdigit_def)+
  with year_code_first_letter [of y] have "\<not> is_year_code y" by blast
  with assms(3) show ?thesis
    by (auto simp: year_token_def split: sum.splits)
qed

lemma year_token_true:
  "year_token y = Inr True \<Longrightarrow> plausible_year y = Inr True \<or> is_year_code y"
  by (auto simp: year_token_def split: sum.splits)

lemma year_token_error: "year_token y = Inl e \<Longrightarrow> e = ValueError"
  by (auto simp: year_token_def plausible_year_def int_of_digits_def split: sum.splits if_splits)

lemma find_year_token:
  "find_year ps i = Inr (y, k) \<Longrightarrow> y = [] \<or> year_token y = Inr True"
  by (induction ps arbitrary: i) (auto split: sum.splits if_splits)

lemma row_with_year_fields:
  assumes "r \<in> set (row_with_year sf ed parts)"
  shows "emit_ok (PL r) (NAME r) (TEAM r) (TIME r) \<and> SOURCE_FILE r = sf \<and> EVENT_DATE r = ed
         \<and> (YEAR r = [] \<or> year_token (YEAR r) = Inr True)"
proof (cases "find_year (interior parts) 0")
  case (Inl e)
  from assms show ?thesis
    unfolding row_with_year_def Let_def Inl sum.case
    by (auto split: if_split_asm)
next
  case (Inr found)
  obtain year year_index where found: "found = (year, year_index)" by (cases found)
  define middle where
    "middle = (if year_index > 0
               then map snd (filter (\<lambda>(i, part). int i \<noteq> year_index - 1)
                                    (enumerate 0 (interior parts)))
               else interior parts)"
  obtain name_parts team_parts
    where nt: "split_name_team team_keywords_year middle = (name_parts, team_parts)"
    by (cases "split_name_team team_keywords_year middle")
  from Inr found have fy: "find_year (interior parts) 0 = Inr (year, year_index)" by simp
  from find_year_token [OF fy]
  have y: "year = [] \<or> year_token year = Inr True" .
  from assms show ?thesis
    unfolding row_with_year_def Let_def fy sum.case prod.case middle_def [symmetric] nt
    using y by (auto split: if_split_asm)
qed

lemma row_without_year_fields:
  assumes "r \<in> set (row_without_year sf ed parts)"
  shows "emit_ok (PL r) (NAME r) (TEAM r) (TIME r) \<and> SOURCE_FILE r = sf \<and> EVENT_DATE r = ed
         \<and> YEAR r = []"
proof (cases "split_name_team team_keywords (interior parts)")
  case nt: (Pair name_parts team_parts)
  from assms show ?thesis
    unfolding row_without_year_def Let_def nt prod.case
    by (auto split: if_split_asm)
qed

lemma row_records_fields:
  assumes "r \<in> set (row_records hy sf ed parts)"
  shows "emit_ok (PL r) (NAME r) (TEAM r) (TIME r) \<and> SOURCE_FILE r = sf \<and> EVENT_DATE r = ed
         \<and> (YEAR r = [] \<or> year_token (YEAR r) = Inr True)"
  using assms row_with_year_fields [of r sf ed parts] row_without_year_fields [of r sf ed parts]
  by (auto simp: row_records_def split: if_splits)

lemma scan_rows_all:
  assumes "\<And>hy parts r. r \<in> set (row_records hy sf ed parts) \<Longrightarrow> P r"
    and "r \<in> set (scan_rows hy sf ed ls)"
  shows "P r"
  using assms(2)
  by (induction ls) (auto simp: Let_def assms(1) split: if_splits)

lemma scan_rows_break:
  assumes "is_section_break (strip l)"
  shows "scan_rows hy sf ed (pre @ l # post) = scan_rows hy sf ed pre"
proof -
  from assms have "strip l \<noteq> []" by (auto simp: is_section_break_def)
  with assms show ?thesis by (induction pre) (simp_all add: Let_def)
qed

lemma header_step_records:
  assumes "header_step lines sf ed st il = Inr st'"
  shows "snd st' = snd st
         \<or> (\<exists>has_year. snd st' = snd st @ scan_rows has_year sf ed (row_window lines (fst il)))"
proof -
  obtain table_found records i line where st: "st = (table_found, records)" "il = (i, line)"
    by (cases st, cases il) auto
  with assms show ?thesis
    by (auto simp: header_step_def table_records_def Let_def split: if_splits sum.splits)
qed

lemma scan_lines_all:
  assumes row: "\<And>hy parts r. r \<in> set (row_records hy sf ed parts) \<Longrightarrow> P r"
  shows "scan_lines lines sf ed ils st = Inr st' \<Longrightarrow> \<forall>r \<in> set (snd st). P r
         \<Longrightarrow> \<forall>r \<in> set (snd st'). P r"
proof (induction ils arbitrary: st)
  case Nil then show ?case by simp
next
  case (Cons il ils)
  from Cons.prems(1) obtain st1 where
    step: "header_step lines sf ed st il = Inr st1" and
    rest: "scan_lines lines sf ed ils st1 = Inr st'"
    by (auto split: sum.splits)
  from header_step_records [OF step] Cons.prems(2) have "\<forall>r \<in> set (snd st1). P r"
    using scan_rows_all [of sf ed P] row by auto
  with Cons.IH [OF rest] show ?case by blast
qed

lemma extract_all_records:
  assumes "\<And>hy parts r. r \<in> set (row_records hy sf ed parts) \<Longrightarrow> P r"
    and "extract_all_table_data text sf ed = Inr records"
    and "r \<in> set records"
  shows "P r"
proof -
  from assms(2) obtain st where
    "scan_lines (split_lines text) sf ed (enumerate 0 (split_lines text)) (False, []) = Inr st"
    "records = snd st"
    by (auto simp: extract_all_table_data_def scan_headers_def split: sum.splits)
  with scan_lines_all [of sf ed P "split_lines text" _ "(False, [])" st] assms(1,3)
  show ?thesis by auto
qed

lemma extract_data_records:
  assumes "\<And>hy sf ed parts r. r \<in> set (row_records hy sf ed parts) \<Longrightarrow> P r"
    and "r \<in> set (extract_data_from_pdf self pdf)"
  shows "P r"
proof (cases "extract_from_text self (extract_text_from_pdf (snd pdf)) (fst pdf)")
  case (Inl e)
  with assms(2) show ?thesis
    by (simp add: extract_data_from_pdf_def Let_def split: if_splits)
next
  case (Inr records)
  with assms(2) have "r \<in> set records"
    by (simp add: extract_data_from_pdf_def Let_def split: if_splits)
  moreover from Inr
  have "extract_all_table_data (extract_text_from_pdf (snd pdf)) (fst pdf)
          (extract_event_date (extract_text_from_pdf (snd pdf))) = Inr records"
    by (simp add: extract_from_text_def Let_def)
  ultimately show ?thesis
    using extract_all_records [of "fst pdf" _ P _ records r] assms(1) by blast
qed

lemma peek_parts_error: "peek_parts ps = Inl e \<Longrightarrow> e = ValueError"
  by (induction ps) (auto split: sum.splits if_splits dest: year_token_error)

lemma peek_lines_error: "peek_lines ls = Inl e \<Longrightarrow> e = ValueError"
  by (induction ls) (auto simp: Let_def split: sum.splits if_splits dest: peek_parts_error)

lemma table_records_error: "table_records lines sf ed i = Inl e \<Longrightarrow> e = ValueError"
  by (auto simp: table_records_def header_has_year_def Let_def
           split: sum.splits if_splits dest: peek_lines_error)

lemma scan_lines_ok:
  assumes "\<forall>il \<in> set ils. is_header (strip (upper (snd il)))
             \<longrightarrow> (\<exists>rs. table_records lines sf ed (fst il) = Inr rs)"
  shows "\<exists>b. scan_lines lines sf ed ils (b0, recs) =
           Inr (b, recs @ concat (map (\<lambda>il. if is_header (strip (upper (snd il)))
                                             then projr (table_records lines sf ed (fst il))
                                             else []) ils))"
  using assms
proof (induction ils arbitrary: b0 recs)
  case Nil then show ?case by simp
next
  case (Cons il ils)
  obtain i line where il: "il = (i, line)" by (cases il)
  show ?case
  proof (cases "is_header (strip (upper line))")
    case False
    with il have "header_step lines sf ed (b0, recs) il = Inr (b0, recs)"
      by (simp add: header_step_def)
    with Cons.IH [of b0 recs] Cons.prems il False show ?thesis by simp
  next
    case True
    with Cons.prems il obtain rs where rs: "table_records lines sf ed i = Inr rs" by auto
    with il True have "header_step lines sf ed (b0, recs) il = Inr (True, recs @ rs)"
      by (simp add: header_step_def)
    with Cons.IH [of True "recs @ rs"] Cons.prems il True rs show ?thesis by simp
  qed
qed

lemma scan_lines_raises:
  assumes "il \<in> set ils" "is_header (strip (upper (snd il)))"
    "table_records lines sf ed (fst il) = Inl e"
  shows "scan_lines lines sf ed ils st = Inl ValueError"
  using assms(1)
proof (induction ils arbitrary: st)
  case Nil then show ?case by simp
next
  case (Cons x ils)
  obtain b recs i line where st: "st = (b, recs)" and x: "x = (i, line)"
    by (cases st, cases x) auto
  show ?case
  proof (cases "header_step lines sf ed st x")
    case (Inl e')
    with st x have "e' = ValueError"
      by (auto simp: header_step_def Let_def split: if_splits sum.splits
               dest: table_records_error)
    with Inl show ?thesis by simp
  next
    case (Inr st1)
    have "x \<noteq> il"
    proof
      assume "x = il"
      with Inr st x assms(2,3) show False
        by (auto simp: header_step_def Let_def split: if_splits sum.splits)
    qed
    with Cons.prems have "il \<in> set ils" by auto
    from Cons.IH [OF this] Inr show ?thesis by simp
  qed
qed

lemma concat_map_filter:
  "concat (map (\<lambda>x. if P x then f x else []) xs) = concat (map f (filter P xs))"
  by (induction xs) auto

lemma peek_parts_append:
  "peek_parts (ps @ qs) =
     (case peek_parts ps of
        Inl e \<Rightarrow> Inl e
      | Inr hit \<Rightarrow> if hit then Inr True else peek_parts qs)"
  by (induction ps) (auto split: sum.splits)

lemma peek_lines_tokens: "peek_lines ls = peek_parts (peek_tokens ls)"
  by (induction ls) (auto simp: peek_tokens_def peek_parts_append Let_def split: sum.splits)

lemma peek_parts_false:
  "(peek_parts ts = Inr False) = (\<forall>t \<in> set ts. year_token t = Inr False)"
  by (induction ts) (auto split: sum.splits)

lemma peek_parts_true:
  "(peek_parts ts = Inr True) =
   (\<exists>before t after. ts = before @ t # after \<and> year_token t = Inr True
                      \<and> (\<forall>u \<in> set before. year_token u = Inr False))"
proof (induction ts)
  case Nil then show ?case by simp
next
  case (Cons a ts)
  show ?case
  proof (cases "year_token a")
    case (Inl e)
    then show ?thesis by (auto simp: Cons_eq_append_conv)
  next
    case (Inr hit)
    show ?thesis
    proof (cases hit)
      case True
      with Inr have "a # ts = [] @ a # ts \<and> year_token a = Inr True
                     \<and> (\<forall>u \<in> set []. year_token u = Inr False)" by simp
      then have "\<exists>before t after. a # ts = before @ t # after \<and> year_token t = Inr True
                      \<and> (\<forall>u \<in> set before. year_token u = Inr False)" by blast
      with Inr True show ?thesis by simp
    next
      case False
      with Inr Cons.IH show ?thesis
        by (auto simp: Cons_eq_append_conv) (metis set_ConsD)+
    qed
  qed
qed

lemma peek_parts_raises:
  "(peek_parts ts = Inl e) =
   (\<exists>before t after. ts = before @ t # after \<and> year_token t = Inl e
                      \<and> (\<forall>u \<in> set before. year_token u = Inr False))"
proof (induction ts)
  case Nil then show ?case by simp
next
  case (Cons a ts)
  show ?case
  proof (cases "year_token a")
    case (Inl e')
    show ?thesis
    proof (cases "e' = e")
      case True
      with Inl have "a # ts = [] @ a # ts \<and> year_token a = Inl e
                     \<and> (\<forall>u \<in> set []. year_token u = Inr False)" by simp
      then have "\<exists>before t after. a # ts = before @ t # after \<and> year_token t = Inl e
                      \<and> (\<forall>u \<in> set before. year_token u = Inr False)" by blast
      with Inl True show ?thesis by simp
    next
      case False
      with Inl show ?thesis by (auto simp: Cons_eq_append_conv)
    qed
  next
    case (Inr hit)
    show ?thesis
    proof (cases hit)
      case True
      with Inr show ?thesis by (auto simp: Cons_eq_append_conv)
    next
      case False
      with Inr Cons.IH show ?thesis
        by (auto simp: Cons_eq_append_conv) (metis set_ConsD)+
    qed
  qed
qed

subsection \<open>The combined CSV and the folder run\<close>

lemma combined_header_value:
  "combined_header =
     [Str ''Table_Name'', Str ''Row_Number'', Str ''Column_0'', Str ''Column_1'', Str ''Column_2'',
      Str ''Column_3'', Str ''Column_4'', Str ''Column_5'', Str ''Column_6'', Str ''Column_7'',
      Str ''Column_8'', Str ''Column_9'', Str ''Column_10'', Str ''Column_11'', Str ''Column_12'',
      Str ''Column_13'', Str ''Column_14'', Str ''Column_15'', Str ''Column_16'', Str ''Column_17'',
      Str ''Column_18'', Str ''Column_19'']"
  by code_simp

lemma table_rows_shape:
  assumes "r \<in> set (table_rows entry)"
  shows "\<exists>row_num row. row \<in> set (rows (snd entry))
           \<and> r = [Str (fst entry), Num row_num] @ map Str (row @ replicate (20 - length row) [])"
proof (cases entry)
  case (Pair table_name data)
  with assms obtain row_num row where
    "(row_num, row) \<in> set (enumerate 1 (rows data))"
    "r = [Str table_name, Num row_num] @ map Str (padded_row row)"
    by (auto simp: table_rows_def split: if_splits)
  moreover from this(1) have "row \<in> set (rows data)"
    by (auto simp: enumerate_eq_zip dest: set_zip_rightD)
  ultimately show ?thesis using Pair
    by (auto simp: padded_row_def)
qed


subsection \<open>A match of the first date pattern\<close>

lemma search_from_skip:
  "\<forall>k<length pre. match_items its (drop k pre @ rest) = None
   \<Longrightarrow> search_from its (pre @ rest) = search_from its rest"
proof (induction pre)
  case Nil then show ?case by simp
next
  case (Cons c cs)
  from Cons.prems have "match_items its (drop 0 (c # cs) @ rest) = None" by blast
  then have here: "match_items its (c # cs @ rest) = None" by simp
  have "\<forall>k<length cs. match_items its (drop k cs @ rest) = None"
  proof (intro allI impI)
    fix k assume "k < length cs"
    then have "Suc k < length (c # cs)" by simp
    with Cons.prems have "match_items its (drop (Suc k) (c # cs) @ rest) = None" by blast
    then show "match_items its (drop k cs @ rest) = None" by simp
  qed
  from Cons.IH [OF this] here show ?case by simp
qed

lemma match_rep_first:
  assumes "length (takeWhile cls s) = avail"
    and "most = (case hi of None \<Rightarrow> avail | Some h \<Rightarrow> min h avail)"
    and "lo \<le> most"
    and "match_items its (drop most s) = Some n"
  shows "match_items (Rep cls lo hi # its) s = Some (most + n)"
proof -
  from assms(3) have "[lo ..< Suc most] = [lo ..< most] @ [most]" by simp
  with assms(1,2) have "rep_counts cls lo hi s = most # rev [lo ..< most]"
    by (simp add: rep_counts_def Let_def)
  with assms(4) show ?thesis by simp
qed

lemma match_lit:
  assumes "starts_with a s" and "match_items its (drop (length a) s) = Some n"
  shows "match_items (Lit a # its) s = Some (length a + n)"
  using assms by simp

lemma february_match:
  "match_items (items (month_day_year 1 None)) (''February 23, 2024'' @ post) = Some 17"
proof -
  have s7: "match_items [Rep is_decimal_char 4 (Some 4)] (''2024'' @ post) = Some (4 + 0)"
  proof (rule match_rep_first)
    show "length (takeWhile is_decimal_char (''2024'' @ post))
          = 4 + length (takeWhile is_decimal_char post)"
      by (simp add: is_decimal_char_def)
    show "4 = (case Some 4 of None \<Rightarrow> 4 + length (takeWhile is_decimal_char post)
                            | Some h \<Rightarrow> min h (4 + length (takeWhile is_decimal_char post)))"
      by simp
    show "(4::nat) \<le> 4" by simp
    show "match_items [] (drop 4 (''2024'' @ post)) = Some 0" by simp
  qed
  have s6: "match_items [Lit '' '', Rep is_decimal_char 4 (Some 4)] ('' 2024'' @ post)
            = Some (length '' '' + 4)"
    by (rule match_lit) (use s7 in simp_all)
  have s5c: "match_items [Rep comma 0 (Some 1), Lit '' '', Rep is_decimal_char 4 (Some 4)]
               ('', 2024'' @ post) = Some (1 + 5)"
  proof (rule match_rep_first)
    show "length (takeWhile comma ('', 2024'' @ post)) = 1" by (simp add: comma_def)
    show "1 = (case Some 1 of None \<Rightarrow> 1 | Some h \<Rightarrow> min h (1::nat))" by simp
    show "(0::nat) \<le> 1" by simp
    show "match_items [Lit '' '', Rep is_decimal_char 4 (Some 4)] (drop 1 ('', 2024'' @ post))
          = Some 5" using s6 by simp
  qed
  have s5b: "match_items [Rep is_decimal_char 0 (Some 2), Rep comma 0 (Some 1), Lit '' '',
                          Rep is_decimal_char 4 (Some 4)] ('', 2024'' @ post) = Some (0 + 6)"
  proof (rule match_rep_first)
    show "length (takeWhile is_decimal_char ('', 2024'' @ post)) = 0"
      by (simp add: is_decimal_char_def)
    show "0 = (case Some 2 of None \<Rightarrow> 0 | Some h \<Rightarrow> min h (0::nat))" by simp
    show "(0::nat) \<le> 0" by simp
    show "match_items [Rep comma 0 (Some 1), Lit '' '', Rep is_decimal_char 4 (Some 4)]
            (drop 0 ('', 2024'' @ post)) = Some 6" using s5c by simp
  qed
  have s5a: "match_items [Rep dash 0 (Some 1), Rep is_decimal_char 0 (Some 2),
                          Rep comma 0 (Some 1), Lit '' '', Rep is_decimal_char 4 (Some 4)]
               ('', 2024'' @ post) = Some (0 + 6)"
  proof (rule match_rep_first)
    show "length (takeWhile dash ('', 2024'' @ post)) = 0" by (simp add: dash_def)
    show "0 = (case Some 1 of None \<Rightarrow> 0 | Some h \<Rightarrow> min h (0::nat))" by simp
    show "(0::nat) \<le> 0" by simp
    show "match_items [Rep is_decimal_char 0 (Some 2), Rep comma 0 (Some 1), Lit '' '',
                       Rep is_decimal_char 4 (Some 4)] (drop 0 ('', 2024'' @ post)) = Some 6"
      using s5b by simp
  qed
  have s3: "match_items [Rep is_decimal_char 1 (Some 2), Rep dash 0 (Some 1),
                         Rep is_decimal_char 0 (Some 2), Rep comma 0 (Some 1), Lit '' '',
                         Rep is_decimal_char 4 (Some 4)] (''23, 2024'' @ post) = Some (2 + 6)"
  proof (rule match_rep_first)
    show "length (takeWhile is_decimal_char (''23, 2024'' @ post)) = 2"
      by (simp add: is_decimal_char_def)
    show "2 = (case Some 2 of None \<Rightarrow> 2 | Some h \<Rightarrow> min h (2::nat))" by simp
    show "(1::nat) \<le> 2" by simp
    show "match_items [Rep dash 0 (Some 1), Rep is_decimal_char 0 (Some 2),
                       Rep comma 0 (Some 1), Lit '' '', Rep is_decimal_char 4 (Some 4)]
            (drop 2 (''23, 2024'' @ post)) = Some 6" using s5a by simp
  qed
  have s2: "match_items [Lit '' '', Rep is_decimal_char 1 (Some 2), Rep dash 0 (Some 1),
                         Rep is_decimal_char 0 (Some 2), Rep comma 0 (Some 1), Lit '' '',
                         Rep is_decimal_char 4 (Some 4)] ('' 23, 2024'' @ post)
            = Some (length '' '' + 8)"
    by (rule match_lit) (use s3 in simp_all)
  have s1: "match_items [Rep is_alpha_char 1 None, Lit '' '', Rep is_decimal_char 1 (Some 2),
                         Rep dash 0 (Some 1), Rep is_decimal_char 0 (Some 2),
                         Rep comma 0 (Some 1), Lit '' '', Rep is_decimal_char 4 (Some 4)]
              (''February 23, 2024'' @ post) = Some (8 + 9)"
  proof (rule match_rep_first)
    show "length (takeWhile is_alpha_char (''February 23, 2024'' @ post)) = 8"
      by (simp add: is_alpha_char_def is_upper_char_def is_lower_char_def)
    show "8 = (case None of None \<Rightarrow> 8 | Some h \<Rightarrow> min h (8::nat))" by simp
    show "(1::nat) \<le> 8" by simp
    show "match_items [Lit '' '', Rep is_decimal_char 1 (Some 2), Rep dash 0 (Some 1),
                       Rep is_decimal_char 0 (Some 2), Rep comma 0 (Some 1), Lit '' '',
                       Rep is_decimal_char 4 (Some 4)]
            (drop 8 (''February 23, 2024'' @ post)) = Some 9" using s2 by simp
  qed
  then show ?thesis by (simp add: month_day_year_def)
qed

subsection \<open>The shape of a year token\<close>

lemma year_token_shape:
  assumes "y = [] \<or> year_token y = Inr True"
  shows "(y = []
      \<or> (length y = 4 \<and> list_all is_decimal_char y
          \<and> (\<exists>v. int_of_digits y = Inr v \<and> 2020 \<le> v \<and> v \<le> 2030))
      \<or> re_match year_code_pattern (upper y) \<noteq> None)
     \<and> (length y = 4 \<and> list_all is_digit_char y
          \<longrightarrow> (\<exists>v. int_of_digits y = Inr v \<and> 2020 \<le> v \<and> v \<le> 2030))
     \<and> y \<noteq> ''1999''"
proof -
  have shape: "y = []
      \<or> (length y = 4 \<and> list_all is_decimal_char y
          \<and> (\<exists>v. int_of_digits y = Inr v \<and> 2020 \<le> v \<and> v \<le> 2030))
      \<or> re_match year_code_pattern (upper y) \<noteq> None"
    using assms year_token_true [of y] plausible_year_true [of y]
    by (auto simp: is_year_code_def)
  have digits: "\<exists>v. int_of_digits y = Inr v \<and> 2020 \<le> v \<and> v \<le> 2030"
    if "length y = 4" "list_all is_digit_char y"
  proof -
    from that have d: "isdigit y" by (auto simp: isdigit_def)
    from that(1) assms have "year_token y = Inr True" by auto
    with plausible_year_digits [OF d that(1)] have "plausible_year y = Inr True" by blast
    with plausible_year_true show ?thesis by blast
  qed
  have v: "int_of_digits ''1999'' = Inr 1999" by code_simp
  have l: "length ''1999'' = 4 \<and> list_all is_digit_char ''1999''" by code_simp
  have "y \<noteq> ''1999''"
  proof
    assume "y = ''1999''"
    with digits l v show False by auto
  qed
  with shape digits show ?thesis by blast
qed

section \<open>Properties of the record fields\<close>

text \<open>
  Claim C1, as the code has it. Every record of the text path has a non-empty place, a
  non-empty name, a non-empty team and a time that the loose numeric pattern matches at its
  start; this holds of the list that \<open>extract_all_table_data\<close> returns and of the records
  that \<open>extract_data_from_pdf\<close> hands on. The table-row mapper promises less: the record it
  returns has at least one of place, name, team and time non-empty; any of them may be
  empty, and the time is not matched against a pattern.
\<close>

theorem emitted_record_fields:
  "(\<forall>records. extract_all_table_data text source_file event_date = Inr records
       \<longrightarrow> (\<forall>r \<in> set records.
              PL r \<noteq> [] \<and> NAME r \<noteq> [] \<and> TEAM r \<noteq> []
              \<and> re_match time_pattern (TIME r) \<noteq> None))
   \<and> (\<forall>r \<in> set (extract_data_from_pdf self pdf).
          PL r \<noteq> [] \<and> NAME r \<noteq> [] \<and> TEAM r \<noteq> []
          \<and> re_match time_pattern (TIME r) \<noteq> None)
   \<and> (\<forall>record. extract_record_from_row row indices source_file page_num table_num row_num = Some record
         \<longrightarrow> row_PL record \<noteq> [] \<or> row_NAME record \<noteq> [] \<or> row_TEAM record \<noteq> []
             \<or> row_TIME record \<noteq> [])"
proof -
  have row: "PL r \<noteq> [] \<and> NAME r \<noteq> [] \<and> TEAM r \<noteq> [] \<and> re_match time_pattern (TIME r) \<noteq> None"
    if "r \<in> set (row_records hy sf ed parts)" for r hy sf ed parts
    using row_records_fields [OF that] by (auto simp: emit_ok_def isdigit_def)
  have a: "\<forall>records. extract_all_table_data text source_file event_date = Inr records
       \<longrightarrow> (\<forall>r \<in> set records.
              PL r \<noteq> [] \<and> NAME r \<noteq> [] \<and> TEAM r \<noteq> []
              \<and> re_match time_pattern (TIME r) \<noteq> None)"
    using extract_all_records
      [of source_file event_date
          "\<lambda>r. PL r \<noteq> [] \<and> NAME r \<noteq> [] \<and> TEAM r \<noteq> [] \<and> re_match time_pattern (TIME r) \<noteq> None"
          "text"]
      row by blast
  have b: "\<forall>r \<in> set (extract_data_from_pdf self pdf).
          PL r \<noteq> [] \<and> NAME r \<noteq> [] \<and> TEAM r \<noteq> []
          \<and> re_match time_pattern (TIME r) \<noteq> None"
    using extract_data_records
      [of "\<lambda>r. PL r \<noteq> [] \<and> NAME r \<noteq> [] \<and> TEAM r \<noteq> [] \<and> re_match time_pattern (TIME r) \<noteq> None"
          _ self pdf]
      row by blast
  have c: "\<forall>record. extract_record_from_row row indices source_file page_num table_num row_num = Some record
         \<longrightarrow> row_PL record \<noteq> [] \<or> row_NAME record \<noteq> [] \<or> row_TEAM record \<noteq> []
             \<or> row_TIME record \<noteq> []"
    by (auto simp: extract_record_from_row_def Let_def split: if_splits)
  from a b c show ?thesis by blast
qed

text \<open>
  The theorem at the Maria Rivera text and at the table row 2, A. Lee, Tech College, 10.01.
\<close>

theorem emitted_record_fields_witness:
  "extract_all_table_data
     (''PL NAME YEAR TEAM TIME'' @ [CHR 0x0A] @ ''3 Maria Rivera SR Caribbean University 12.34'')
     ''results.pdf'' []
   = Inr [\<lparr>PL = ''3'', NAME = ''Maria Rivera'', YEAR = ''SR'', TEAM = ''Caribbean University'',
           TIME = ''12.34'', SOURCE_FILE = ''results.pdf'', EVENT_DATE = []\<rparr>]
   \<and> re_match time_pattern ''12.34'' \<noteq> None
   \<and> extract_record_from_row [Some ''2'', Some ''A. Lee'', Some ''Tech College'', Some ''10.01'']
        \<lparr>PL_index = Some 0, NAME_index = Some 1, TEAM_index = Some 2, TIME_index = Some 3,
         EVENT_DATE_index = None\<rparr> ''results.pdf'' 1 0 1
      = Some \<lparr>row_PL = ''2'', row_NAME = ''A. Lee'', row_TEAM = ''Tech College'',
              row_TIME = ''10.01'', row_SOURCE_FILE = ''results.pdf'', row_EVENT_DATE = []\<rparr>"
proof -
  let ?r = "\<lparr>PL = ''3'', NAME = ''Maria Rivera'', YEAR = ''SR'', TEAM = ''Caribbean University'',
     TIME = ''12.34'', SOURCE_FILE = ''results.pdf'', EVENT_DATE = []\<rparr>"
  let ?t = "''PL NAME YEAR TEAM TIME'' @ [CHR 0x0A] @ ''3 Maria Rivera SR Caribbean University 12.34''"
  let ?row = "[Some ''2'', Some ''A. Lee'', Some ''Tech College'', Some ''10.01'']"
  let ?ix = "\<lparr>PL_index = Some 0, NAME_index = Some 1, TEAM_index = Some 2, TIME_index = Some 3,
         EVENT_DATE_index = None\<rparr>"
  let ?s = "\<lparr>folder_path = [], extracted_data = [], total_records = 0\<rparr>"
  have ev: "extract_all_table_data ?t ''results.pdf'' [] = Inr [?r]" by code_simp
  have row: "extract_record_from_row ?row ?ix ''results.pdf'' 1 0 1
      = Some \<lparr>row_PL = ''2'', row_NAME = ''A. Lee'', row_TEAM = ''Tech College'',
              row_TIME = ''10.01'', row_SOURCE_FILE = ''results.pdf'', row_EVENT_DATE = []\<rparr>"
    by code_simp
  have mem: "?r \<in> set [?r]" by simp
  from emitted_record_fields [of ?t "''results.pdf''" "[]" ?s "(''results.pdf'', None)" ?row ?ix 1 0 1]
    ev mem
  have "re_match time_pattern (TIME ?r) \<noteq> None" by blast
  then have "re_match time_pattern ''12.34'' \<noteq> None" by simp
  with ev row show ?thesis by blast
qed

text \<open>
  Claim C1 as it is worded fails on the table-row mapper: the row 1, John Smith, empty team,
  DNF is returned as a record, with an empty team and a time that the pattern does not match.
\<close>

theorem table_row_counterexample:
  "extract_record_from_row [Some ''1'', Some ''John Smith'', Some [], Some ''DNF'']
        \<lparr>PL_index = Some 0, NAME_index = Some 1, TEAM_index = Some 2, TIME_index = Some 3,
         EVENT_DATE_index = None\<rparr> ''results.pdf'' 1 0 1
      = Some \<lparr>row_PL = ''1'', row_NAME = ''John Smith'', row_TEAM = [],
              row_TIME = ''DNF'', row_SOURCE_FILE = ''results.pdf'', row_EVENT_DATE = []\<rparr>
   \<and> re_match time_pattern ''DNF'' = None"
  by code_simp

text \<open>
  Claim C10. In every record of the text path the year is empty, or four decimal digits
  with a value from 2020 to 2030, or a token whose upper-case form matches the year code
  pattern. So four digit characters, as \<open>str.isdigit\<close> sees them, are stored as a year only
  with a value from 2020 to 2030; 1999 is not stored. This holds of the list that
  \<open>extract_all_table_data\<close> returns and of the records that \<open>extract_data_from_pdf\<close> hands on.
\<close>

theorem year_field_shape:
  "(\<forall>records. extract_all_table_data text source_file event_date = Inr records
      \<longrightarrow> (\<forall>r \<in> set records.
     (YEAR r = []
      \<or> (length (YEAR r) = 4 \<and> list_all is_decimal_char (YEAR r)
          \<and> (\<exists>v. int_of_digits (YEAR r) = Inr v \<and> 2020 \<le> v \<and> v \<le> 2030))
      \<or> re_match year_code_pattern (upper (YEAR r)) \<noteq> None)
     \<and> (length (YEAR r) = 4 \<and> list_all is_digit_char (YEAR r)
          \<longrightarrow> (\<exists>v. int_of_digits (YEAR r) = Inr v \<and> 2020 \<le> v \<and> v \<le> 2030))
     \<and> YEAR r \<noteq> ''1999''))
   \<and> (\<forall>r \<in> set (extract_data_from_pdf self pdf).
     (YEAR r = []
      \<or> (length (YEAR r) = 4 \<and> list_all is_decimal_char (YEAR r)
          \<and> (\<exists>v. int_of_digits (YEAR r) = Inr v \<and> 2020 \<le> v \<and> v \<le> 2030))
      \<or> re_match year_code_pattern (upper (YEAR r)) \<noteq> None)
     \<and> (length (YEAR r) = 4 \<and> list_all is_digit_char (YEAR r)
          \<longrightarrow> (\<exists>v. int_of_digits (YEAR r) = Inr v \<and> 2020 \<le> v \<and> v \<le> 2030))
     \<and> YEAR r \<noteq> ''1999'')"
proof -
  let ?ok = "\<lambda>r. (YEAR r = []
      \<or> (length (YEAR r) = 4 \<and> list_all is_decimal_char (YEAR r)
          \<and> (\<exists>v. int_of_digits (YEAR r) = Inr v \<and> 2020 \<le> v \<and> v \<le> 2030))
      \<or> re_match year_code_pattern (upper (YEAR r)) \<noteq> None)
     \<and> (length (YEAR r) = 4 \<and> list_all is_digit_char (YEAR r)
          \<longrightarrow> (\<exists>v. int_of_digits (YEAR r) = Inr v \<and> 2020 \<le> v \<and> v \<le> 2030))
     \<and> YEAR r \<noteq> ''1999''"
  have row: "?ok r" if "r \<in> set (row_records hy sf ed parts)" for r hy sf ed parts
    using row_records_fields [OF that] year_token_shape [of "YEAR r"] by blast
  have a: "\<forall>records. extract_all_table_data text source_file event_date = Inr records
      \<longrightarrow> (\<forall>r \<in> set records. ?ok r)"
    using extract_all_records [of source_file event_date ?ok "text"] row by blast
  have b: "\<forall>r \<in> set (extract_data_from_pdf self pdf). ?ok r"
    using extract_data_records [of ?ok _ self pdf] row by blast
  from a b show ?thesis by blast
qed

text \<open>
  The theorem at a table with the year code SR in one row and 1999 in the next: the second
  row is kept, with 1999 left in the name and no year.
\<close>

theorem year_field_shape_witness:
  "extract_all_table_data
     (''PL NAME YEAR TEAM TIME'' @ [CHR 0x0A] @ ''3 Maria Rivera SR Caribbean University 12.34''
      @ [CHR 0x0A] @ ''4 Ana Lopez 1999 Caribbean University 12.40'') ''results.pdf'' []
   = Inr [\<lparr>PL = ''3'', NAME = ''Maria Rivera'', YEAR = ''SR'', TEAM = ''Caribbean University'',
           TIME = ''12.34'', SOURCE_FILE = ''results.pdf'', EVENT_DATE = []\<rparr>,
          \<lparr>PL = ''4'', NAME = ''Ana Lopez 1999'', YEAR = [], TEAM = ''Caribbean University'',
           TIME = ''12.40'', SOURCE_FILE = ''results.pdf'', EVENT_DATE = []\<rparr>]
   \<and> re_match year_code_pattern (upper ''SR'') = Some ''SR''
   \<and> ''SR'' \<noteq> ''1999''"
proof -
  let ?r = "\<lparr>PL = ''3'', NAME = ''Maria Rivera'', YEAR = ''SR'', TEAM = ''Caribbean University'',
     TIME = ''12.34'', SOURCE_FILE = ''results.pdf'', EVENT_DATE = []\<rparr>"
  let ?q = "\<lparr>PL = ''4'', NAME = ''Ana Lopez 1999'', YEAR = [], TEAM = ''Caribbean University'',
     TIME = ''12.40'', SOURCE_FILE = ''results.pdf'', EVENT_DATE = []\<rparr>"
  let ?t = "''PL NAME YEAR TEAM TIME'' @ [CHR 0x0A] @ ''3 Maria Rivera SR Caribbean University 12.34''
      @ [CHR 0x0A] @ ''4 Ana Lopez 1999 Caribbean University 12.40''"
  let ?s = "\<lparr>folder_path = [], extracted_data = [], total_records = 0\<rparr>"
  have ev: "extract_all_table_data ?t ''results.pdf'' [] = Inr [?r, ?q]" by code_simp
  have code: "re_match year_code_pattern (upper ''SR'') = Some ''SR''" by code_simp
  have mem: "?r \<in> set [?r, ?q]" by simp
  from year_field_shape [of ?t "''results.pdf''" "[]" ?s "(''results.pdf'', None)"] ev mem
  have "YEAR ?r \<noteq> ''1999''" by blast
  then have "''SR'' \<noteq> ''1999''" by simp
  with ev code show ?thesis by blast
qed

section \<open>Properties of the text path\<close>

text \<open>
  Claim C3. The text made of the header line \<open>PL NAME YEAR TEAM TIME\<close> and the data line
  \<open>3 Maria Rivera SR Caribbean University 12.34\<close> yields exactly one record: place 3, name
  Maria Rivera, year SR, team Caribbean University, time 12.34. The year is found at index
  3 of the tokens and taken out of the middle tokens before name and team are separated.
  The loop over the remaining tokens finds a keyword (it ends with \<open>found_team_start\<close> true,
  so the positional fallback is not used), and the team starts at Caribbean, the first token
  that contains an institution keyword.
\<close>

theorem maria_rivera_row:
  "extract_all_table_data
     (''PL NAME YEAR TEAM TIME'' @ [CHR 0x0A] @ ''3 Maria Rivera SR Caribbean University 12.34'')
     source_file event_date =
   Inr [\<lparr>PL = ''3'', NAME = ''Maria Rivera'', YEAR = ''SR'', TEAM = ''Caribbean University'',
         TIME = ''12.34'', SOURCE_FILE = source_file, EVENT_DATE = event_date\<rparr>]
   \<and> find_year (interior (re_split_ws ''3 Maria Rivera SR Caribbean University 12.34'')) 0
       = Inr (''SR'', 3)
   \<and> split_loop team_keywords_year [''Maria'', ''Rivera'', ''Caribbean'', ''University'']
         ([], [], False)
       = ([''Maria'', ''Rivera''], [''Caribbean'', ''University''], True)
   \<and> split_name_team team_keywords_year [''Maria'', ''Rivera'', ''Caribbean'', ''University'']
       = ([''Maria'', ''Rivera''], [''Caribbean'', ''University''])
   \<and> map (\<lambda>part. list_ex (\<lambda>keyword. contains keyword part) team_keywords_year)
         [''Maria'', ''Rivera'', ''Caribbean'', ''University'']
       = [False, False, True, True]"
  by code_simp

text \<open>
  Claim C2, as the code has it. The scan does not stop at the first header: every line that
  matches a header pattern starts a row scan of its own. When the year flag of every header
  line is obtained, the records are those of all these scans, in the order of the headers.
  When the year peek of a header line raises \<open>ValueError\<close>, the call raises it and returns
  no records.
\<close>

theorem every_header_scanned:
  "((\<forall>i \<in> set (filter (\<lambda>i. is_header (strip (upper (split_lines text ! i))))
                       [0 ..< length (split_lines text)]).
        \<exists>rs. table_records (split_lines text) source_file event_date i = Inr rs)
    \<longrightarrow> extract_all_table_data text source_file event_date =
        Inr (concat (map (\<lambda>i. projr (table_records (split_lines text) source_file event_date i))
                         (filter (\<lambda>i. is_header (strip (upper (split_lines text ! i))))
                                 [0 ..< length (split_lines text)]))))
   \<and> ((\<exists>i \<in> set (filter (\<lambda>i. is_header (strip (upper (split_lines text ! i))))
                         [0 ..< length (split_lines text)]).
          table_records (split_lines text) source_file event_date i = Inl ValueError)
      \<longrightarrow> extract_all_table_data text source_file event_date = Inl ValueError)"
proof (intro conjI impI)
  let ?ls = "split_lines text"
  let ?hs = "filter (\<lambda>i. is_header (strip (upper (?ls ! i)))) [0 ..< length ?ls]"
  let ?f = "\<lambda>il. if is_header (strip (upper (snd il)))
                  then projr (table_records ?ls source_file event_date (fst il)) else []"
  have en: "enumerate 0 ?ls = map (\<lambda>i. (i, ?ls ! i)) [0 ..< length ?ls]"
    by (rule nth_equalityI) (simp_all add: nth_enumerate_eq)
  {
    assume ok: "\<forall>i \<in> set ?hs. \<exists>rs. table_records ?ls source_file event_date i = Inr rs"
    have "\<forall>il \<in> set (enumerate 0 ?ls). is_header (strip (upper (snd il)))
             \<longrightarrow> (\<exists>rs. table_records ?ls source_file event_date (fst il) = Inr rs)"
      using ok by (auto simp: en)
    from scan_lines_ok [OF this, of False "[]"] obtain b where
      "scan_lines ?ls source_file event_date (enumerate 0 ?ls) (False, [])
         = Inr (b, concat (map ?f (enumerate 0 ?ls)))" by auto
    moreover have "concat (map ?f (enumerate 0 ?ls))
        = concat (map (\<lambda>i. projr (table_records ?ls source_file event_date i)) ?hs)"
      by (simp add: en comp_def concat_map_filter)
    ultimately show "extract_all_table_data text source_file event_date =
        Inr (concat (map (\<lambda>i. projr (table_records ?ls source_file event_date i)) ?hs))"
      by (simp add: extract_all_table_data_def scan_headers_def)
  }
  {
    assume "\<exists>i \<in> set ?hs. table_records ?ls source_file event_date i = Inl ValueError"
    then obtain i where i: "i < length ?ls" "is_header (strip (upper (?ls ! i)))"
      "table_records ?ls source_file event_date i = Inl ValueError" by auto
    then have "(i, ?ls ! i) \<in> set (enumerate 0 ?ls)" by (auto simp: en)
    from scan_lines_raises [OF this, of ?ls source_file event_date ValueError "(False, [])"] i
    show "extract_all_table_data text source_file event_date = Inl ValueError"
      by (simp add: extract_all_table_data_def scan_headers_def)
  }
qed

text \<open>
  The theorem at a text with two headers, at lines 0 and 2, and at the same text with four
  superscript digits in the last line, where the peek raises.
\<close>

theorem every_header_scanned_witness:
  "extract_all_table_data
     (''PL NAME TEAM TIME'' @ [CHR 0x0A] @ ''1 John Smith University of State 21.45'' @ [CHR 0x0A]
      @ ''PL NAME TEAM TIME'' @ [CHR 0x0A] @ ''2 Jane Doe Tech College 22.5'') ''results.pdf'' []
   = Inr (projr (table_records
                   [''PL NAME TEAM TIME'', ''1 John Smith University of State 21.45'',
                    ''PL NAME TEAM TIME'', ''2 Jane Doe Tech College 22.5''] ''results.pdf'' [] 0)
          @ projr (table_records
                   [''PL NAME TEAM TIME'', ''1 John Smith University of State 21.45'',
                    ''PL NAME TEAM TIME'', ''2 Jane Doe Tech College 22.5''] ''results.pdf'' [] 2))
   \<and> extract_all_table_data
       (''PL NAME TEAM TIME'' @ [CHR 0x0A] @ ''1 John Smith University of State 21.45''
        @ [CHR 0x0A] @ ''PL NAME TEAM TIME'' @ [CHR 0x0A]
        @ ''2 Jane '' @ [CHR 0xB2, CHR 0xB2, CHR 0xB2, CHR 0xB2] @ '' Tech College 22.5'')
       ''results.pdf'' []
     = Inl ValueError"
proof -
  let ?t = "''PL NAME TEAM TIME'' @ [CHR 0x0A] @ ''1 John Smith University of State 21.45'' @ [CHR 0x0A]
      @ ''PL NAME TEAM TIME'' @ [CHR 0x0A] @ ''2 Jane Doe Tech College 22.5''"
  let ?ls = "[''PL NAME TEAM TIME'', ''1 John Smith University of State 21.45'',
              ''PL NAME TEAM TIME'', ''2 Jane Doe Tech College 22.5'']"
  let ?u = "''PL NAME TEAM TIME'' @ [CHR 0x0A] @ ''1 John Smith University of State 21.45''
        @ [CHR 0x0A] @ ''PL NAME TEAM TIME'' @ [CHR 0x0A]
        @ ''2 Jane '' @ [CHR 0xB2, CHR 0xB2, CHR 0xB2, CHR 0xB2] @ '' Tech College 22.5''"
  have ls: "split_lines ?t = ?ls" by code_simp
  have hs: "filter (\<lambda>i. is_header (strip (upper (split_lines ?t ! i))))
                   [0 ..< length (split_lines ?t)] = [0, 2]" by code_simp
  have t0: "table_records ?ls ''results.pdf'' [] 0
     = Inr [\<lparr>PL = ''1'', NAME = ''John Smith'', YEAR = [], TEAM = ''University of State'',
             TIME = ''21.45'', SOURCE_FILE = ''results.pdf'', EVENT_DATE = []\<rparr>]" by code_simp
  have t2: "table_records ?ls ''results.pdf'' [] 2
     = Inr [\<lparr>PL = ''2'', NAME = ''Jane Doe Tech'', YEAR = [], TEAM = ''College'',
             TIME = ''22.5'', SOURCE_FILE = ''results.pdf'', EVENT_DATE = []\<rparr>]" by code_simp
  have ok: "\<forall>i \<in> set [0, 2]. \<exists>rs. table_records (split_lines ?t) ''results.pdf'' [] i = Inr rs"
    unfolding ls using t0 t2 by simp
  have good: "extract_all_table_data ?t ''results.pdf'' []
      = Inr (projr (table_records ?ls ''results.pdf'' [] 0)
             @ projr (table_records ?ls ''results.pdf'' [] 2))"
    using every_header_scanned [of ?t "''results.pdf''" "[]"] ok
    unfolding hs unfolding ls by simp
  have hu: "2 \<in> set (filter (\<lambda>i. is_header (strip (upper (split_lines ?u ! i))))
                            [0 ..< length (split_lines ?u)])" by code_simp
  have eu: "table_records (split_lines ?u) ''results.pdf'' [] 2 = Inl ValueError" by code_simp
  from every_header_scanned [of ?u "''results.pdf''" "[]"] hu eu
  have bad: "extract_all_table_data ?u ''results.pdf'' [] = Inl ValueError" by blast
  from good bad show ?thesis by blast
qed

text \<open>
  Claim C2 as it is worded fails: in a text with two headers, each followed by one data
  line, the second record is extracted under the second header. The scan under the first
  header gives the first record only; it ends at the second header line, which is a section
  break.
\<close>

theorem second_header_counterexample:
  "extract_all_table_data
     (''PL NAME TEAM TIME'' @ [CHR 0x0A] @ ''1 John Smith University of State 21.45'' @ [CHR 0x0A]
      @ ''PL NAME TEAM TIME'' @ [CHR 0x0A] @ ''2 Jane Doe Tech College 22.5'') ''results.pdf'' []
   = Inr [\<lparr>PL = ''1'', NAME = ''John Smith'', YEAR = [], TEAM = ''University of State'',
           TIME = ''21.45'', SOURCE_FILE = ''results.pdf'', EVENT_DATE = []\<rparr>,
          \<lparr>PL = ''2'', NAME = ''Jane Doe Tech'', YEAR = [], TEAM = ''College'',
           TIME = ''22.5'', SOURCE_FILE = ''results.pdf'', EVENT_DATE = []\<rparr>]
   \<and> table_records
        [''PL NAME TEAM TIME'', ''1 John Smith University of State 21.45'',
         ''PL NAME TEAM TIME'', ''2 Jane Doe Tech College 22.5''] ''results.pdf'' [] 0
     = Inr [\<lparr>PL = ''1'', NAME = ''John Smith'', YEAR = [], TEAM = ''University of State'',
             TIME = ''21.45'', SOURCE_FILE = ''results.pdf'', EVENT_DATE = []\<rparr>]
   \<and> table_records
        [''PL NAME TEAM TIME'', ''1 John Smith University of State 21.45'',
         ''PL NAME TEAM TIME'', ''2 Jane Doe Tech College 22.5''] ''results.pdf'' [] 2
     = Inr [\<lparr>PL = ''2'', NAME = ''Jane Doe Tech'', YEAR = [], TEAM = ''College'',
             TIME = ''22.5'', SOURCE_FILE = ''results.pdf'', EVENT_DATE = []\<rparr>]"
  by code_simp

text \<open>
  Claim C5, as the code has it. When line \<open>j\<close> of the row window of the header at line \<open>i\<close>
  is, once stripped, made of the letters A to Z and whitespace only and longer than ten
  characters, the records of that table are those of the lines strictly between \<open>i\<close> and
  \<open>j\<close>, whatever the year flag: line \<open>j\<close> gives no record and no later line is read. When
  the year peek of the header raises, the scan of the table raises in the same way.
\<close>

theorem section_break_stops_rows:
  assumes "i < j" and "j < min (i + 200) (length lines)"
    and "list_all upper_or_space (strip (lines ! j))" and "length (strip (lines ! j)) > 10"
  shows "table_records lines source_file event_date i =
         (case header_has_year lines i (strip (upper (lines ! i))) of
            Inl e \<Rightarrow> Inl e
          | Inr has_year \<Rightarrow>
              Inr (scan_rows has_year source_file event_date
                             (take (j - (i + 1)) (drop (i + 1) lines))))"
proof -
  from assms(4) have ne: "strip (lines ! j) \<noteq> []" by auto
  with assms(3,4) have brk: "is_section_break (strip (lines ! j))"
    by (simp add: is_section_break_def section_pattern_all)
  let ?w = "row_window lines i"
  let ?k = "j - (i + 1)"
  from assms(1,2) have k: "?k < length ?w" by (auto simp: row_window_def)
  from assms(1,2) have "i + 1 + ?k = j" "i + 1 \<le> length lines" by auto
  with k have at: "?w ! ?k = lines ! j" by (simp add: row_window_def)
  from assms(1,2) have pre: "take ?k ?w = take ?k (drop (i + 1) lines)"
    by (simp add: row_window_def min_def)
  from k have "?w = take ?k ?w @ ?w ! ?k # drop (Suc ?k) ?w"
    by (rule id_take_nth_drop)
  then have "scan_rows hy source_file event_date ?w
             = scan_rows hy source_file event_date (take ?k ?w)" for hy
    using scan_rows_break [OF brk [folded at]] by metis
  then show ?thesis using pre by (simp add: table_records_def split: sum.splits)
qed

text \<open>
  The theorem at a table whose second line after the header is \<open>FINAL RESULTS\<close>, written
  with a no-break space: the data line after it gives no record.
\<close>

theorem section_break_stops_rows_witness:
  "(0::nat) < 2
   \<and> 2 < min (0 + 200) (length [''PL NAME TEAM TIME'', ''1 John Smith University of State 21.45'',
                                 ''FINAL'' @ [CHR 0xA0] @ ''RESULTS'',
                                 ''2 Jane Doe Tech College 22.5''])
   \<and> list_all upper_or_space (strip (''FINAL'' @ [CHR 0xA0] @ ''RESULTS''))
   \<and> length (strip (''FINAL'' @ [CHR 0xA0] @ ''RESULTS'')) > 10
   \<and> table_records [''PL NAME TEAM TIME'', ''1 John Smith University of State 21.45'',
                     ''FINAL'' @ [CHR 0xA0] @ ''RESULTS'',
                     ''2 Jane Doe Tech College 22.5''] ''results.pdf'' [] 0
     = Inr [\<lparr>PL = ''1'', NAME = ''John Smith'', YEAR = [], TEAM = ''University of State'',
             TIME = ''21.45'', SOURCE_FILE = ''results.pdf'', EVENT_DATE = []\<rparr>]"
proof -
  let ?ls = "[''PL NAME TEAM TIME'', ''1 John Smith University of State 21.45'',
              ''FINAL'' @ [CHR 0xA0] @ ''RESULTS'', ''2 Jane Doe Tech College 22.5'']"
  have h1: "(0::nat) < 2" by simp
  have h2: "2 < min (0 + 200) (length ?ls)" by simp
  have h3: "list_all upper_or_space (strip (?ls ! 2))" by code_simp
  have h4: "length (strip (?ls ! 2)) > 10" by code_simp
  have ev: "(case header_has_year ?ls 0 (strip (upper (?ls ! 0))) of
              Inl e \<Rightarrow> Inl e
            | Inr has_year \<Rightarrow>
                Inr (scan_rows has_year ''results.pdf'' [] (take (2 - (0 + 1)) (drop (0 + 1) ?ls))))
     = Inr [\<lparr>PL = ''1'', NAME = ''John Smith'', YEAR = [], TEAM = ''University of State'',
             TIME = ''21.45'', SOURCE_FILE = ''results.pdf'', EVENT_DATE = []\<rparr>]" by code_simp
  have h3': "list_all upper_or_space (strip (''FINAL'' @ [CHR 0xA0] @ ''RESULTS''))" by code_simp
  have h4': "length (strip (''FINAL'' @ [CHR 0xA0] @ ''RESULTS'')) > 10" by code_simp
  from section_break_stops_rows [OF h1 h2 h3 h4, of "''results.pdf''" "[]"] ev
  have "table_records ?ls ''results.pdf'' [] 0
     = Inr [\<lparr>PL = ''1'', NAME = ''John Smith'', YEAR = [], TEAM = ''University of State'',
             TIME = ''21.45'', SOURCE_FILE = ''results.pdf'', EVENT_DATE = []\<rparr>]" by simp
  with h2 h3' h4' show ?thesis by simp
qed

text \<open>
  Claim C5 as stated fails for a line with an accented capital. The line \<open>RESULTATS FINALS\<close>
  written with its E acute (0xC9) is made of upper-case letters and a blank and has sixteen
  characters, but the pattern of the source knows the letters A to Z only: the line is read
  as a data line of two tokens, and the row after it gives a record.
\<close>

theorem accented_capital_counterexample:
  "claimed_section_break (strip (''R'' @ [CHR 0xC9] @ ''SULTATS FINALS''))
   \<and> \<not> is_section_break (strip (''R'' @ [CHR 0xC9] @ ''SULTATS FINALS''))
   \<and> table_records
        [''PL NAME TEAM TIME'', ''1 John Smith University of State 21.45'',
         ''R'' @ [CHR 0xC9] @ ''SULTATS FINALS'',
         ''2 Jane Doe Tech College 22.5''] ''results.pdf'' [] 0
     = Inr [\<lparr>PL = ''1'', NAME = ''John Smith'', YEAR = [], TEAM = ''University of State'',
             TIME = ''21.45'', SOURCE_FILE = ''results.pdf'', EVENT_DATE = []\<rparr>,
            \<lparr>PL = ''2'', NAME = ''Jane Doe Tech'', YEAR = [], TEAM = ''College'',
             TIME = ''22.5'', SOURCE_FILE = ''results.pdf'', EVENT_DATE = []\<rparr>]"
  by code_simp

text \<open>
  Claim C6, as the code has it. For a header line without \<open>YEAR\<close> the peek reads, in
  order, the interior tokens of those of the five lines after the header (blank lines are
  counted among the five) that have at least four tokens. The flag is true exactly when a
  token taken as a year (four decimal digits with a value from 2020 to 2030, or a year code)
  is read before any token on which \<open>int\<close> fails. The peek raises \<open>ValueError\<close> exactly
  when such a failing token (four digit characters with a superscript among them) is read
  first. The flag is false exactly when no token is either. So when \<open>int\<close> fails on no
  token, the flag tells whether one of the five lines has at least four tokens and an
  interior token taken as a year.
\<close>

theorem year_flag_peek:
  assumes "\<not> contains ''YEAR'' line_upper"
  shows "((header_has_year lines i line_upper = Inr True) =
            (\<exists>before t after.
                peek_tokens (take 5 (drop (i + 1) lines)) = before @ t # after
                \<and> year_token t = Inr True \<and> (\<forall>u \<in> set before. year_token u = Inr False)))
       \<and> ((header_has_year lines i line_upper = Inl ValueError) =
            (\<exists>before t after.
                peek_tokens (take 5 (drop (i + 1) lines)) = before @ t # after
                \<and> year_token t = Inl ValueError \<and> (\<forall>u \<in> set before. year_token u = Inr False)))
       \<and> ((header_has_year lines i line_upper = Inr False) =
            (\<forall>t \<in> set (peek_tokens (take 5 (drop (i + 1) lines))). year_token t = Inr False))
       \<and> ((\<forall>t \<in> set (peek_tokens (take 5 (drop (i + 1) lines))). year_token t \<noteq> Inl ValueError)
            \<longrightarrow> header_has_year lines i line_upper =
                Inr (\<exists>check_line \<in> set (take 5 (drop (i + 1) lines)).
                       length (re_split_ws (strip check_line)) \<ge> 4
                       \<and> (\<exists>part \<in> set (interior (re_split_ws (strip check_line))).
                              year_token part = Inr True)))"
proof -
  let ?ts = "peek_tokens (take 5 (drop (i + 1) lines))"
  from assms have h: "header_has_year lines i line_upper = peek_parts ?ts"
    by (simp add: header_has_year_def peek_lines_tokens)
  have mem: "(\<exists>t \<in> set ?ts. year_token t = Inr True) =
             (\<exists>check_line \<in> set (take 5 (drop (i + 1) lines)).
                       length (re_split_ws (strip check_line)) \<ge> 4
                       \<and> (\<exists>part \<in> set (interior (re_split_ws (strip check_line))).
                              year_token part = Inr True))"
    by (auto simp: peek_tokens_def Let_def split: if_splits)
  have last: "peek_parts ?ts = Inr (\<exists>t \<in> set ?ts. year_token t = Inr True)"
    if no: "\<forall>t \<in> set ?ts. year_token t \<noteq> Inl ValueError"
  proof (cases "peek_parts ?ts")
    case (Inl e)
    with peek_parts_raises [of ?ts e] peek_parts_error [OF Inl] no show ?thesis by auto
  next
    case (Inr b)
    show ?thesis
    proof (cases b)
      case True
      with Inr peek_parts_true [of ?ts] have "\<exists>t \<in> set ?ts. year_token t = Inr True" by auto
      with Inr True show ?thesis by simp
    next
      case False
      with Inr peek_parts_false [of ?ts] have "\<not> (\<exists>t \<in> set ?ts. year_token t = Inr True)" by auto
      with Inr False show ?thesis by simp
    qed
  qed
  show ?thesis
    unfolding h using peek_parts_true [of ?ts] peek_parts_raises [of ?ts ValueError]
      peek_parts_false [of ?ts] last mem by simp
qed

text \<open>
  The theorem at a header followed by a data line with the year code SR, and at a header
  followed by a line with four superscript digits before a line with SR.
\<close>

theorem year_flag_peek_witness:
  "\<not> contains ''YEAR'' ''PL NAME TEAM TIME''
   \<and> header_has_year [''PL NAME TEAM TIME'', ''1 John Smith SR Some College 12.3''] 0
        ''PL NAME TEAM TIME'' = Inr True
   \<and> header_has_year
        [''PL NAME TEAM TIME'',
         ''1 John '' @ [CHR 0xB2, CHR 0xB2, CHR 0xB2, CHR 0xB2] @ '' Some College 12.3'',
         ''2 Ann SR Some College 12.4''] 0 ''PL NAME TEAM TIME'' = Inl ValueError"
proof -
  let ?a = "[''PL NAME TEAM TIME'', ''1 John Smith SR Some College 12.3'']"
  let ?b = "[''PL NAME TEAM TIME'',
             ''1 John '' @ [CHR 0xB2, CHR 0xB2, CHR 0xB2, CHR 0xB2] @ '' Some College 12.3'',
             ''2 Ann SR Some College 12.4'']"
  have h: "\<not> contains ''YEAR'' ''PL NAME TEAM TIME''" by code_simp
  have ta: "peek_tokens (take 5 (drop (0 + 1) ?a))
            = [''John'', ''Smith''] @ ''SR'' # [''Some'', ''College'']" by code_simp
  have ya: "year_token ''SR'' = Inr True \<and> (\<forall>u \<in> set [''John'', ''Smith'']. year_token u = Inr False)"
    by code_simp
  have tb: "peek_tokens (take 5 (drop (0 + 1) ?b))
            = [''John''] @ [CHR 0xB2, CHR 0xB2, CHR 0xB2, CHR 0xB2]
              # [''Some'', ''College'', ''Ann'', ''SR'', ''Some'', ''College'']" by code_simp
  have yb: "year_token [CHR 0xB2, CHR 0xB2, CHR 0xB2, CHR 0xB2] = Inl ValueError
            \<and> (\<forall>u \<in> set [''John'']. year_token u = Inr False)"
    by code_simp
  from year_flag_peek [OF h, of ?a 0] ta ya
  have a: "header_has_year ?a 0 ''PL NAME TEAM TIME'' = Inr True" by blast
  from year_flag_peek [OF h, of ?b 0] tb yb
  have b: "header_has_year ?b 0 ''PL NAME TEAM TIME'' = Inl ValueError" by blast
  from h a b show ?thesis by blast
qed

text \<open>
  Claim C6 as it is worded fails: after five blank lines the data line with the year code
  SR is the first non-blank line after the header, but it is outside \<open>lines[i+1:i+6]\<close> and
  the flag is false.
\<close>

theorem blank_lines_counterexample:
  "header_has_year
       [''PL NAME TEAM TIME'', [], [], [], [], [], ''1 John Smith SR Some College 12.3''] 0
       ''PL NAME TEAM TIME'' = Inr False
   \<and> claimed_year_flag
       [''PL NAME TEAM TIME'', [], [], [], [], [], ''1 John Smith SR Some College 12.3''] 0"
  by code_simp

section \<open>Properties of the event date\<close>

text \<open>
  Claim C4, as the code has it. The event date is the first match of the first date
  pattern, in the order of the list, that matches somewhere in the text: when the patterns
  before the \<open>k\<close>-th find nothing and the \<open>k\<close>-th finds \<open>m\<close> as its leftmost match, the
  result is \<open>m\<close> (stripping changes nothing, since a match begins with a letter or a digit
  and ends with a digit). When no pattern matches, the result is the empty string. A text that
  holds \<open>February 23, 2024\<close> gives this date when no match of the first pattern begins
  before it, whatever follows the date; \<open>...on February 23, 2024 at...\<close> is such a text.
\<close>

theorem first_date_pattern_wins:
  "((\<forall>p \<in> set date_patterns. re_search p text = None) \<longrightarrow> extract_event_date text = [])
   \<and> (\<forall>k m. k < length date_patterns
              \<and> (\<forall>j<k. re_search (date_patterns ! j) text = None)
              \<and> re_search (date_patterns ! k) text = Some m
            \<longrightarrow> extract_event_date text = m)
   \<and> (\<forall>before after.
         (\<forall>k<length before.
             match_items (items (date_patterns ! 0))
                         (drop k before @ ''February 23, 2024'' @ after) = None)
         \<longrightarrow> extract_event_date (before @ ''February 23, 2024'' @ after) = ''February 23, 2024'')"
proof -
  have none: "extract_event_date t = []"
    if "\<forall>p \<in> set date_patterns. re_search p t = None" for t
  proof -
    from that have "\<forall>p \<in> set date_patterns. re_findall p t = []"
      using date_findall_none by blast
    then show ?thesis by (simp add: extract_event_date_def first_date_none)
  qed
  have first: "extract_event_date t = m"
    if h: "k < length date_patterns" "\<forall>j<k. re_search (date_patterns ! j) t = None"
          "re_search (date_patterns ! k) t = Some m" for t k m
  proof -
    from h(1) have k: "date_patterns ! k \<in> set date_patterns" by simp
    have before: "\<forall>j<k. re_findall (date_patterns ! j) t = []"
    proof (intro allI impI)
      fix j assume "j < k"
      with h have "date_patterns ! j \<in> set date_patterns"
        "re_search (date_patterns ! j) t = None" by simp_all
      then show "re_findall (date_patterns ! j) t = []" by (rule date_findall_none)
    qed
    from h(3) date_findall_head [OF k] obtain ms where
      "re_findall (date_patterns ! k) t = m # ms" by blast
    with h(1) before have "first_date date_patterns t = strip m"
      by (intro first_date_at [of k]) auto
    moreover from h(3) date_match_clean [OF k] have "strip m = m" by blast
    ultimately show ?thesis by (simp add: extract_event_date_def)
  qed
  have feb: "extract_event_date (before @ ''February 23, 2024'' @ after) = ''February 23, 2024''"
    if skip: "\<forall>k<length before.
             match_items (items (date_patterns ! 0))
                         (drop k before @ ''February 23, 2024'' @ after) = None"
    for before after
  proof -
    have p0: "date_patterns ! 0 = month_day_year 1 None" by (simp add: date_patterns_def)
    have un: "\<not> anchored (date_patterns ! 0)" by (simp add: p0 month_day_year_def)
    from search_from_skip [OF skip]
    have "search_from (items (date_patterns ! 0)) (before @ ''February 23, 2024'' @ after)
          = search_from (items (date_patterns ! 0)) (''February 23, 2024'' @ after)" .
    also have "\<dots> = Some ''February 23, 2024''"
      using february_match [of after] by (simp add: p0)
    finally have "re_search (date_patterns ! 0) (before @ ''February 23, 2024'' @ after)
                  = Some ''February 23, 2024''"
      using un by (simp add: re_search_def)
    moreover have "0 < length date_patterns" by (simp add: date_patterns_def)
    ultimately show ?thesis using first [of 0] by simp
  qed
  from none first feb show ?thesis by blast
qed

text \<open>
  The theorem at a text where the two month patterns find nothing and the third pattern
  finds 2024-02-23 before the slash date, at a text without a date, and at
  \<open>...on February 23, 2024 at...\<close>.
\<close>

theorem first_date_pattern_wins_witness:
  "re_search (date_patterns ! 0) ''Meet 2024-02-23 or 02/23/2024'' = None
   \<and> re_search (date_patterns ! 1) ''Meet 2024-02-23 or 02/23/2024'' = None
   \<and> re_search (date_patterns ! 2) ''Meet 2024-02-23 or 02/23/2024'' = Some ''2024-02-23''
   \<and> extract_event_date ''Meet 2024-02-23 or 02/23/2024'' = ''2024-02-23''
   \<and> extract_event_date ''no date here'' = []
   \<and> extract_event_date (''...on '' @ ''February 23, 2024'' @ '' at...'') = ''February 23, 2024''"
proof -
  let ?t = "''Meet 2024-02-23 or 02/23/2024''"
  have len: "2 < length date_patterns" by code_simp
  have p0: "re_search (date_patterns ! 0) ?t = None" by code_simp
  have p1: "re_search (date_patterns ! 1) ?t = None" by code_simp
  have p2: "re_search (date_patterns ! 2) ?t = Some ''2024-02-23''" by code_simp
  have before: "\<forall>j<2. re_search (date_patterns ! j) ?t = None"
  proof (intro allI impI)
    fix j :: nat assume "j < 2"
    then have "j = 0 \<or> j = 1" by auto
    with p0 p1 show "re_search (date_patterns ! j) ?t = None" by auto
  qed
  have none: "\<forall>p \<in> set date_patterns. re_search p ''no date here'' = None" by code_simp
  have "\<forall>k \<in> set [0 ..< length ''...on ''].
          match_items (items (date_patterns ! 0))
                      (drop k ''...on '' @ ''February 23, 2024'' @ '' at...'') = None"
    by code_simp
  then have skip: "\<forall>k<length ''...on ''.
          match_items (items (date_patterns ! 0))
                      (drop k ''...on '' @ ''February 23, 2024'' @ '' at...'') = None"
    by (simp only: set_upt atLeastLessThan_iff Ball_def le0 simp_thms)
  from first_date_pattern_wins [of ?t] len before p2
  have a: "extract_event_date ?t = ''2024-02-23''" by blast
  from first_date_pattern_wins [of "''no date here''"] none
  have b: "extract_event_date ''no date here'' = []" by blast
  from first_date_pattern_wins [of "[]"] skip
  have c: "extract_event_date (''...on '' @ ''February 23, 2024'' @ '' at...'')
           = ''February 23, 2024''" by blast
  from p0 p1 p2 a b c show ?thesis by blast
qed

text \<open>
  Claim C4 as it is worded fails: a text that contains \<open>...on February 23, 2024 at...\<close>
  after an earlier date gives the earlier date.
\<close>

theorem earlier_date_counterexample:
  "contains ''...on February 23, 2024 at...''
     ''Entries close May 1, 2023 ...on February 23, 2024 at...''
   \<and> extract_event_date ''Entries close May 1, 2023 ...on February 23, 2024 at...''
       = ''May 1, 2023''"
  by code_simp

section \<open>Properties of the combined CSV\<close>

text \<open>
  Claim C8, as the code has it. The first row written is
  \<open>Table_Name, Row_Number, Column_0, ..., Column_19\<close>. Every other row is the table name, the
  row number and the cells of a row of that table, followed by empty strings up to twenty
  columns: a row of fewer than twenty cells has exactly twenty columns after name and
  number, and a row of twenty cells or more is written with all its cells, not cut.
\<close>

theorem combined_csv_rows:
  "hd (save_combined_csv table_data) =
     [Str ''Table_Name'', Str ''Row_Number'', Str ''Column_0'', Str ''Column_1'', Str ''Column_2'',
      Str ''Column_3'', Str ''Column_4'', Str ''Column_5'', Str ''Column_6'', Str ''Column_7'',
      Str ''Column_8'', Str ''Column_9'', Str ''Column_10'', Str ''Column_11'', Str ''Column_12'',
      Str ''Column_13'', Str ''Column_14'', Str ''Column_15'', Str ''Column_16'', Str ''Column_17'',
      Str ''Column_18'', Str ''Column_19'']
   \<and> (\<forall>r \<in> set (tl (save_combined_csv table_data)).
         \<exists>table_name data row_num row.
            (table_name, data) \<in> set table_data \<and> row \<in> set (rows data)
            \<and> r = [Str table_name, Num row_num] @ map Str (row @ replicate (20 - length row) [])
            \<and> length (drop 2 r) = max 20 (length row)
            \<and> (length row < 20 \<longrightarrow> length (drop 2 r) = 20)
            \<and> (20 \<le> length row \<longrightarrow> drop 2 r = map Str row))"
proof
  show "hd (save_combined_csv table_data) =
     [Str ''Table_Name'', Str ''Row_Number'', Str ''Column_0'', Str ''Column_1'', Str ''Column_2'',
      Str ''Column_3'', Str ''Column_4'', Str ''Column_5'', Str ''Column_6'', Str ''Column_7'',
      Str ''Column_8'', Str ''Column_9'', Str ''Column_10'', Str ''Column_11'', Str ''Column_12'',
      Str ''Column_13'', Str ''Column_14'', Str ''Column_15'', Str ''Column_16'', Str ''Column_17'',
      Str ''Column_18'', Str ''Column_19'']"
    by (simp only: save_combined_csv_def list.sel combined_header_value)
next
  show "\<forall>r \<in> set (tl (save_combined_csv table_data)).
         \<exists>table_name data row_num row.
            (table_name, data) \<in> set table_data \<and> row \<in> set (rows data)
            \<and> r = [Str table_name, Num row_num] @ map Str (row @ replicate (20 - length row) [])
            \<and> length (drop 2 r) = max 20 (length row)
            \<and> (length row < 20 \<longrightarrow> length (drop 2 r) = 20)
            \<and> (20 \<le> length row \<longrightarrow> drop 2 r = map Str row)"
  proof
    fix r assume "r \<in> set (tl (save_combined_csv table_data))"
    then obtain entry where e: "entry \<in> set table_data" "r \<in> set (table_rows entry)"
      by (auto simp: save_combined_csv_def)
    from table_rows_shape [OF e(2)] obtain row_num row where
      rw: "row \<in> set (rows (snd entry))"
          "r = [Str (fst entry), Num row_num] @ map Str (row @ replicate (20 - length row) [])"
      by blast
    from rw(2) have len: "length (drop 2 r) = max 20 (length row)"
      and short: "length row < 20 \<longrightarrow> length (drop 2 r) = 20"
      and long: "20 \<le> length row \<longrightarrow> drop 2 r = map Str row"
      by auto
    from e(1) have "(fst entry, snd entry) \<in> set table_data" by simp
    with rw len short long
    show "\<exists>table_name data row_num row.
            (table_name, data) \<in> set table_data \<and> row \<in> set (rows data)
            \<and> r = [Str table_name, Num row_num] @ map Str (row @ replicate (20 - length row) [])
            \<and> length (drop 2 r) = max 20 (length row)
            \<and> (length row < 20 \<longrightarrow> length (drop 2 r) = 20)
            \<and> (20 \<le> length row \<longrightarrow> drop 2 r = map Str row)"
      by blast
  qed
qed

text \<open>
  The theorem at a table with one row of two cells: eighteen empty strings are added.
\<close>

theorem combined_csv_rows_witness:
  "save_combined_csv [(''results'', \<lparr>headers = [''Place''], rows = [[''1'', ''A. Lee'']]\<rparr>)] ! 1
   = [Str ''results'', Num 1, Str ''1'', Str ''A. Lee''] @ replicate 18 (Str [])
   \<and> length (drop 2 (save_combined_csv
        [(''results'', \<lparr>headers = [''Place''], rows = [[''1'', ''A. Lee'']]\<rparr>)] ! 1)) = 20"
proof -
  let ?td = "[(''results'', \<lparr>headers = [''Place''], rows = [[''1'', ''A. Lee'']]\<rparr>)]"
  have v: "save_combined_csv ?td ! 1
           = [Str ''results'', Num 1, Str ''1'', Str ''A. Lee''] @ replicate 18 (Str [])"
    by code_simp
  have mem: "save_combined_csv ?td ! 1 \<in> set (tl (save_combined_csv ?td))" by code_simp
  have "20 \<le> length (drop 2 r)" if "r \<in> set (tl (save_combined_csv ?td))" for r
  proof -
    from combined_csv_rows [of ?td]
    have "\<forall>r \<in> set (tl (save_combined_csv ?td)).
            \<exists>table_name data row_num row.
              (table_name, data) \<in> set ?td \<and> row \<in> set (rows data)
              \<and> r = [Str table_name, Num row_num] @ map Str (row @ replicate (20 - length row) [])
              \<and> length (drop 2 r) = max 20 (length row)
              \<and> (length row < 20 \<longrightarrow> length (drop 2 r) = 20)
              \<and> (20 \<le> length row \<longrightarrow> drop 2 r = map Str row)"
      by (rule conjunct2)
    from bspec [OF this that]
    obtain row :: "string list" where "length (drop 2 r) = max 20 (length row)" by blast
    then show ?thesis by simp
  qed
  with mem have "20 \<le> length (drop 2 (save_combined_csv ?td ! 1))" by blast
  moreover from v have "length (drop 2 (save_combined_csv ?td ! 1)) = 20" by simp
  ultimately show ?thesis using v by blast
qed

text \<open>
  Claim C8 as it is worded fails: a row of twenty-one cells is written with twenty-one
  columns after the table name and the row number.
\<close>

theorem long_row_counterexample:
  "length (drop 2 (save_combined_csv
      [(''results'', \<lparr>headers = [''Place''], rows = [replicate 21 ''x'']\<rparr>)] ! 1)) = 21"
  by code_simp

section \<open>Properties of the exit status\<close>




end
